theory Spec2Isabelle
  imports Main "HOL-Library.AList"
begin

section \<open>Python strings\<close>

text \<open>
  A Python \<open>str\<close> is a sequence of Unicode code points, so it is modelled as a list of
  naturals; \<open>S ''abc''\<close> is the literal \<open>"abc"\<close>. A \<open>bytes\<close> value is a list of
  naturals below 256. The path functions are those of \<open>posixpath\<close>.
\<close>

type_synonym pystr = "nat list"
type_synonym bytes = "nat list"

abbreviation ch :: "char \<Rightarrow> nat" where
  "ch c \<equiv> of_char c"

abbreviation S :: "string \<Rightarrow> pystr" where
  "S s \<equiv> map of_char s"

definition is_upper_ascii :: "nat \<Rightarrow> bool" where
  "is_upper_ascii c = (65 \<le> c \<and> c \<le> 90)"

definition is_lower_ascii :: "nat \<Rightarrow> bool" where
  "is_lower_ascii c = (97 \<le> c \<and> c \<le> 122)"

definition is_digit :: "nat \<Rightarrow> bool" where
  "is_digit c = (48 \<le> c \<and> c \<le> 57)"

definition is_alnum :: "nat \<Rightarrow> bool" where
  "is_alnum c = (is_upper_ascii c \<or> is_lower_ascii c \<or> is_digit c)"

text \<open>The character class \<open>[A-Za-z0-9_]\<close>.\<close>

definition is_word :: "nat \<Rightarrow> bool" where
  "is_word c = (is_alnum c \<or> c = ch CHR ''_'')"

text \<open>
  \<open>str.lower\<close> on ASCII code points. \<open>sanitize_filename\<close> applies it only to strings over
  \<open>[A-Za-z0-9_.]\<close> (lemma \<open>safe_name_word\<close>), where it agrees with Python's.
\<close>

definition lower_char :: "nat \<Rightarrow> nat" where
  "lower_char c = (if is_upper_ascii c then c + 32 else c)"

definition lower :: "pystr \<Rightarrow> pystr" where
  "lower s = map lower_char s"

text \<open>\<open>s.split(d)\<close> for a one-character separator: never empty.\<close>

fun split_on :: "nat \<Rightarrow> nat list \<Rightarrow> nat list list" where
  "split_on d [] = [[]]"
| "split_on d (c # cs) =
     (let r = split_on d cs in if c = d then [] # r else (c # hd r) # tl r)"

text \<open>\<open>s.rfind(c)\<close>: the index of the last occurrence, \<open>-1\<close> when there is none.\<close>

definition rfind :: "pystr \<Rightarrow> nat \<Rightarrow> int" where
  "rfind p c =
     (if c \<in> set p then int (length p) - 1 - int (length (takeWhile (\<lambda>x. x \<noteq> c) (rev p)))
      else - 1)"

text \<open>The slice \<open>p[i:j]\<close> for \<open>0 \<le> i\<close>.\<close>

definition slice :: "pystr \<Rightarrow> nat \<Rightarrow> nat \<Rightarrow> pystr" where
  "slice p i j = take (j - i) (drop i p)"

subsection \<open>urllib.parse.unquote\<close>

definition is_hexdig :: "nat \<Rightarrow> bool" where
  "is_hexdig c = (is_digit c \<or> (65 \<le> c \<and> c \<le> 70) \<or> (97 \<le> c \<and> c \<le> 102))"

definition hexval :: "nat \<Rightarrow> nat" where
  "hexval c = (if is_digit c then c - 48 else if c \<le> 70 then c - 55 else c - 87)"

text \<open>
  One piece after a \<open>%\<close> in \<open>unquote_to_bytes\<close>: two hex digits become a byte, anything
  else keeps its \<open>%\<close>.
\<close>

definition unquote_item :: "bytes \<Rightarrow> bytes" where
  "unquote_item item =
     (case item of
        a # b # rest \<Rightarrow>
          if is_hexdig a \<and> is_hexdig b then (16 * hexval a + hexval b) # rest
          else ch CHR ''%'' # item
      | _ \<Rightarrow> ch CHR ''%'' # item)"

definition unquote_to_bytes :: "bytes \<Rightarrow> bytes" where
  "unquote_to_bytes s =
     (case split_on (ch CHR ''%'') s of
        [] \<Rightarrow> []
      | b # bits \<Rightarrow> b @ concat (map unquote_item bits))"

definition is_cont :: "nat \<Rightarrow> bool" where
  "is_cont c = (128 \<le> c \<and> c < 192)"

definition replacement :: nat where
  "replacement = 65533"

text \<open>
  \<open>bytes.decode("utf-8", "replace")\<close> as CPython does it: a well-formed sequence gives
  its code point, and each maximal ill-formed prefix gives one U+FFFD.
\<close>

fun utf8_decode :: "bytes \<Rightarrow> pystr" where
  "utf8_decode [] = []"
| "utf8_decode (b # bs) =
     (if b < 128 then b # utf8_decode bs
      else if b < 194 \<or> 245 \<le> b then replacement # utf8_decode bs
      else if b < 224 then
        (case bs of
           [] \<Rightarrow> [replacement]
         | c # cs \<Rightarrow>
             if is_cont c then ((b - 192) * 64 + (c - 128)) # utf8_decode cs
             else replacement # utf8_decode bs)
      else if b < 240 then
        (case bs of
           [] \<Rightarrow> [replacement]
         | c # cs \<Rightarrow>
             if is_cont c \<and> (b = 224 \<and> 160 \<le> c \<or> b = 237 \<and> c < 160 \<or> b \<noteq> 224 \<and> b \<noteq> 237)
             then
               (case cs of
                  [] \<Rightarrow> [replacement]
                | d # ds \<Rightarrow>
                    if is_cont d
                    then ((b - 224) * 4096 + (c - 128) * 64 + (d - 128)) # utf8_decode ds
                    else replacement # utf8_decode cs)
             else replacement # utf8_decode bs)
      else
        (case bs of
           [] \<Rightarrow> [replacement]
         | c # cs \<Rightarrow>
             if is_cont c \<and> (b = 240 \<and> 144 \<le> c \<or> b = 244 \<and> c < 144 \<or> b \<noteq> 240 \<and> b \<noteq> 244)
             then
               (case cs of
                  [] \<Rightarrow> [replacement]
                | d # ds \<Rightarrow>
                    if is_cont d then
                      (case ds of
                         [] \<Rightarrow> [replacement]
                       | e # es \<Rightarrow>
                           if is_cont e
                           then ((b - 240) * 262144 + (c - 128) * 4096 + (d - 128) * 64
                                 + (e - 128)) # utf8_decode es
                           else replacement # utf8_decode ds)
                    else replacement # utf8_decode cs)
             else replacement # utf8_decode bs))"

text \<open>
  The generator behind \<open>unquote\<close>: every maximal run of ASCII characters is unquoted to
  bytes and decoded, the characters between the runs are kept. \<open>run\<close> is the ASCII run
  read so far.
\<close>

fun unquoted_parts :: "pystr \<Rightarrow> pystr \<Rightarrow> pystr" where
  "unquoted_parts run [] = utf8_decode (unquote_to_bytes run)"
| "unquoted_parts run (c # cs) =
     (if c < 128 then unquoted_parts (run @ [c]) cs
      else utf8_decode (unquote_to_bytes run) @ c # unquoted_parts [] cs)"

definition unquote :: "pystr \<Rightarrow> pystr" where
  "unquote string =
     (if ch CHR ''%'' \<notin> set string then string else unquoted_parts [] string)"

subsection \<open>os.path\<close>

definition basename :: "pystr \<Rightarrow> pystr" where
  "basename p = drop (nat (rfind p (ch CHR ''/'') + 1)) p"

text \<open>
  \<open>os.path.splitext\<close>: the extension starts at the last dot of the last component,
  unless only dots precede it there.
\<close>

definition splitext :: "pystr \<Rightarrow> pystr \<times> pystr" where
  "splitext p =
     (let sepIndex = rfind p (ch CHR ''/'');
          dotIndex = rfind p (ch CHR ''.'')
      in if dotIndex > sepIndex
            \<and> list_ex (\<lambda>c. c \<noteq> ch CHR ''.'') (slice p (nat (sepIndex + 1)) (nat dotIndex))
         then (take (nat dotIndex) p, drop (nat dotIndex) p)
         else (p, []))"

section \<open>The filename sanitizer\<close>

text \<open>\<open>re.sub(r"[^A-Za-z0-9_]", "_", s)\<close>\<close>

definition sub_nonword :: "pystr \<Rightarrow> pystr" where
  "sub_nonword s = map (\<lambda>c. if is_word c then c else ch CHR ''_'') s"

text \<open>\<open>re.sub(r"_+", "_", s)\<close>\<close>

fun sub_underscores :: "pystr \<Rightarrow> pystr" where
  "sub_underscores [] = []"
| "sub_underscores [c] = [c]"
| "sub_underscores (c # d # cs) =
     (if c = ch CHR ''_'' \<and> d = ch CHR ''_'' then sub_underscores (d # cs)
      else c # sub_underscores (d # cs))"

text \<open>\<open>s.strip("_")\<close>\<close>

definition strip_underscores :: "pystr \<Rightarrow> pystr" where
  "strip_underscores s =
     rev (dropWhile (\<lambda>c. c = ch CHR ''_'') (rev (dropWhile (\<lambda>c. c = ch CHR ''_'') s)))"

definition sanitize_filename :: "pystr \<Rightarrow> pystr" where
  "sanitize_filename filename =
     (let filename = unquote filename;
          filename = basename filename;
          (base_name, extension) = splitext filename;
          safe_name = sub_nonword base_name;
          safe_name = sub_underscores safe_name;
          safe_name = strip_underscores safe_name
      in if safe_name = [] then []
         else let extension = (if extension \<noteq> S ''.pdf'' then S ''.pdf'' else extension)
              in lower safe_name @ lower extension)"

text \<open>The three rewriting steps that lead from \<open>base_name\<close> to \<open>safe_name\<close>.\<close>

definition safe_name_of :: "pystr \<Rightarrow> pystr" where
  "safe_name_of base_name = strip_underscores (sub_underscores (sub_nonword base_name))"

text \<open>The base name \<open>sanitize_filename\<close> works on: decoded, without directories and extension.\<close>

definition decoded_base_name :: "pystr \<Rightarrow> pystr" where
  "decoded_base_name filename = fst (splitext (basename (unquote filename)))"

text \<open>No two adjacent underscores.\<close>

fun no_run :: "pystr \<Rightarrow> bool" where
  "no_run [] = True"
| "no_run [c] = True"
| "no_run (c # d # cs) = (\<not> (c = ch CHR ''_'' \<and> d = ch CHR ''_'') \<and> no_run (d # cs))"

text \<open>A full match of \<open>^[a-z0-9_]+\.pdf$\<close>.\<close>

definition is_pattern_char :: "nat \<Rightarrow> bool" where
  "is_pattern_char c = (is_lower_ascii c \<or> is_digit c \<or> c = ch CHR ''_'')"

definition matches_pdf_pattern :: "pystr \<Rightarrow> bool" where
  "matches_pdf_pattern s =
     (4 < length s \<and> drop (length s - 4) s = S ''.pdf''
      \<and> list_all is_pattern_char (take (length s - 4) s))"

section \<open>Exceptions and JSON values\<close>

text \<open>
  The exceptions of the model are all instances of \<open>Exception\<close>; \<open>HTTPError\<close> is a
  \<open>RequestException\<close>. Signals such as \<open>KeyboardInterrupt\<close> are not modelled.
\<close>

datatype exn =
    JSONDecodeError | AttributeError | TypeError | KeyError | ValueError | OSError
  | RuntimeError | UnicodeDecodeError | RequestException | HTTPError int

text \<open>
  What \<open>json.loads\<close> returns. An object keeps its pairs in source order; a float keeps
  its lexeme, since nothing here computes with it.
\<close>

datatype json =
    JNull | JBool bool | JInt int | JFloat pystr | JString pystr
  | JArray "json list" | JObject "(pystr \<times> json) list"

subsection \<open>json.loads\<close>



definition startswith :: "pystr \<Rightarrow> pystr \<Rightarrow> bool" where
  "startswith s p = (take (length p) s = p)"










section \<open>The link extractor\<close>














section \<open>Paths\<close>

definition endswith :: "pystr \<Rightarrow> pystr \<Rightarrow> bool" where
  "endswith s suffix =
     (length suffix \<le> length s \<and> drop (length s - length suffix) s = suffix)"

definition isabs :: "pystr \<Rightarrow> bool" where
  "isabs p = startswith p (S ''/'')"

definition join :: "pystr \<Rightarrow> pystr \<Rightarrow> pystr" where
  "join a b =
     (if startswith b (S ''/'') then b
      else if a = [] \<or> endswith a (S ''/'') then a @ b
      else a @ S ''/'' @ b)"

text \<open>\<open>"/".join(comps)\<close>\<close>

fun sep_join :: "pystr list \<Rightarrow> pystr" where
  "sep_join [] = []"
| "sep_join [c] = c"
| "sep_join (c # cs) = c @ S ''/'' @ sep_join cs"

text \<open>The loop of \<open>normpath\<close> over the components, \<open>new_comps\<close> being its stack.\<close>

fun norm_comps :: "bool \<Rightarrow> pystr list \<Rightarrow> pystr list \<Rightarrow> pystr list" where
  "norm_comps initial_slashes [] new_comps = new_comps"
| "norm_comps initial_slashes (part # parts) new_comps =
     (if part = [] \<or> part = S ''.'' then norm_comps initial_slashes parts new_comps
      else if part \<noteq> S ''..'' \<or> (\<not> initial_slashes \<and> new_comps = [])
              \<or> (new_comps \<noteq> [] \<and> last new_comps = S ''..'')
        then norm_comps initial_slashes parts (new_comps @ [part])
      else if new_comps \<noteq> [] then norm_comps initial_slashes parts (butlast new_comps)
      else norm_comps initial_slashes parts new_comps)"

definition normpath :: "pystr \<Rightarrow> pystr" where
  "normpath path =
     (if path = [] then S ''.''
      else
        let initial_slashes =
              (if startswith path (S ''/'')
               then (if startswith path (S ''//'') \<and> \<not> startswith path (S ''///'')
                     then 2 else 1)
               else (0::nat));
            comps = norm_comps (initial_slashes \<noteq> 0) (split_on (ch CHR ''/'') path) [];
            path = replicate initial_slashes (ch CHR ''/'') @ sep_join comps
        in if path = [] then S ''.'' else path)"

definition dirname :: "pystr \<Rightarrow> pystr" where
  "dirname p =
     (let head = take (nat (rfind p (ch CHR ''/'') + 1)) p
      in if head \<noteq> [] \<and> list_ex (\<lambda>c. c \<noteq> ch CHR ''/'') head
         then rev (dropWhile (\<lambda>c. c = ch CHR ''/'') (rev head))
         else head)"

section \<open>The world outside the program\<close>

text \<open>
  What the libraries and the network answer is not the program's to decide, so it is a
  parameter of the model: the path \<open>urlparse\<close> finds in a value, the answer to the
  \<open>n\<close>-th GET request, the answer to the \<open>n\<close>-th POST of a page request, what \<open>fitz.open\<close>
  makes of a file, and \<open>str.isupper\<close> beyond ASCII. Every theorem holds for all of them.
\<close>

datatype http_result =
    GetRaises exn
  | Response (status_code: int) (body_chunks: "bytes list") (stream_error: "exn option")

datatype fitz_result = Opened nat | OpenFails

record page_request =
  query :: pystr
  pageSize :: int
  currentPage :: int
  filters :: "json list"
  sorting :: pystr

record env =
  urlparse_path :: "json \<Rightarrow> exn + pystr"
  http_get :: "nat \<Rightarrow> json \<Rightarrow> http_result"
  https_post :: "nat \<Rightarrow> page_request \<Rightarrow> exn + pystr"
  fitz_open :: "pystr \<Rightarrow> bytes \<Rightarrow> fitz_result"
  isupper_beyond_ascii :: "nat \<Rightarrow> bool"

text \<open>One constructor for each \<open>print\<close> of the program, with the values it interpolates.\<close>

datatype log =
    Info_Fetching int
  | Info_Found nat int
  | Warning_Skipped_Invalid json pystr
  | Info_Skipped_Exists pystr
  | Success_Downloaded pystr
  | Warning_Failed json exn
  | Error_Unexpected json exn
  | Error_Page int exn
  | Info_Validating nat
  | Error_No_Pages pystr
  | Error_Corrupted pystr
  | Warning_Removing pystr
  | Notice_Uppercase pystr

datatype node = File bytes | Dir

text \<open>
  The state the program acts on: the working directory, the file system as a table from
  absolute normal paths to nodes, the GET and POST requests issued so far, the lines
  printed and the delays slept.
\<close>

record world =
  cwd :: pystr
  fs :: "(pystr \<times> node) list"
  gets :: "json list"
  posts :: "page_request list"
  out :: "log list"
  slept :: "nat list"

definition print :: "log \<Rightarrow> world \<Rightarrow> world" where
  "print line w = w\<lparr>out := out w @ [line]\<rparr>"

definition sleep :: "nat \<Rightarrow> world \<Rightarrow> world" where
  "sleep seconds w = w\<lparr>slept := slept w @ [seconds]\<rparr>"

definition abspath :: "world \<Rightarrow> pystr \<Rightarrow> pystr" where
  "abspath w path = normpath (if isabs path then path else join (cwd w) path)"

definition lookup :: "world \<Rightarrow> pystr \<Rightarrow> node option" where
  "lookup w path = (if path = [] then None else map_of (fs w) (abspath w path))"

text \<open>\<open>os.path.exists\<close>\<close>

definition path_exists :: "world \<Rightarrow> pystr \<Rightarrow> bool" where
  "path_exists w path = (lookup w path \<noteq> None)"

definition isdir :: "world \<Rightarrow> pystr \<Rightarrow> bool" where
  "isdir w path = (lookup w path = Some Dir)"

text \<open>The contents of the file at a key of the table, if a file is there.\<close>

definition file_at :: "world \<Rightarrow> pystr \<Rightarrow> bytes option" where
  "file_at w k = (case map_of (fs w) k of Some (File content) \<Rightarrow> Some content | _ \<Rightarrow> None)"

text \<open>An absolute normal path and the directories above it, outermost first.\<close>

definition dir_chain :: "pystr \<Rightarrow> pystr list" where
  "dir_chain d =
     (let root = takeWhile (\<lambda>c. c = ch CHR ''/'') d;
          comps = filter (\<lambda>c. c \<noteq> []) (split_on (ch CHR ''/'') d)
      in map (\<lambda>k. root @ sep_join (take k comps)) [0..<length comps] @ [d])"

fun mkdir_chain :: "pystr list \<Rightarrow> world \<Rightarrow> exn option \<times> world" where
  "mkdir_chain [] w = (None, w)"
| "mkdir_chain (p # ps) w =
     (case map_of (fs w) p of
        Some (File _) \<Rightarrow> (Some OSError, w)
      | Some Dir \<Rightarrow> mkdir_chain ps w
      | None \<Rightarrow> mkdir_chain ps (w\<lparr>fs := fs w @ [(p, Dir)]\<rparr>))"

text \<open>
  \<open>os.makedirs(name, exist_ok=True)\<close>: the directory and those above it are created where
  missing; a file in the way is an \<open>OSError\<close>.
\<close>

definition makedirs :: "pystr \<Rightarrow> world \<Rightarrow> exn option \<times> world" where
  "makedirs name w =
     (if name = [] then (Some OSError, w) else mkdir_chain (dir_chain (abspath w name)) w)"

text \<open>\<open>open(path, "wb")\<close>: an empty file, in a directory that exists.\<close>

definition open_wb :: "pystr \<Rightarrow> world \<Rightarrow> exn option \<times> world" where
  "open_wb path w =
     (let k = abspath w path
      in if path = [] \<or> map_of (fs w) k = Some Dir
            \<or> map_of (fs w) (dirname k) \<noteq> Some Dir
         then (Some OSError, w)
         else (None, w\<lparr>fs := AList.update k (File []) (fs w)\<rparr>))"

definition file_write :: "pystr \<Rightarrow> bytes \<Rightarrow> world \<Rightarrow> world" where
  "file_write path chunk w =
     (let k = abspath w path
      in case map_of (fs w) k of
           Some (File content) \<Rightarrow> w\<lparr>fs := AList.update k (File (content @ chunk)) (fs w)\<rparr>
         | _ \<Rightarrow> w)"

text \<open>\<open>os.remove\<close>: a directory is not removed.\<close>

definition os_remove :: "pystr \<Rightarrow> world \<Rightarrow> exn option \<times> world" where
  "os_remove path w =
     (case lookup w path of
        Some (File _) \<Rightarrow> (None, w\<lparr>fs := AList.delete (abspath w path) (fs w)\<rparr>)
      | _ \<Rightarrow> (Some OSError, w))"

section \<open>The downloader\<close>

fun is_RequestException :: "exn \<Rightarrow> bool" where
  "is_RequestException RequestException = True"
| "is_RequestException (HTTPError _) = True"
| "is_RequestException _ = False"

text \<open>The loop over \<open>response.iter_content(8192)\<close>.\<close>

fun write_chunks :: "pystr \<Rightarrow> bytes list \<Rightarrow> world \<Rightarrow> world" where
  "write_chunks path [] w = w"
| "write_chunks path (chunk # chunks) w =
     write_chunks path chunks (if chunk \<noteq> [] then file_write path chunk w else w)"

text \<open>\<open>response.raise_for_status()\<close> raises for the statuses 400 to 599.\<close>

definition is_error_status :: "int \<Rightarrow> bool" where
  "is_error_status status = (400 \<le> status \<and> status < 600)"

text \<open>A request that fails: \<open>requests.get\<close> raises, or the status is one of those.\<close>

definition request_fails :: "http_result \<Rightarrow> bool" where
  "request_fails r =
     (case r of
        GetRaises e \<Rightarrow> True
      | Response status chunks stream_err \<Rightarrow> is_error_status status)"

text \<open>The body of the \<open>try\<close> in \<open>download_pdf_file\<close>.\<close>

definition fetch_and_save :: "env \<Rightarrow> json \<Rightarrow> pystr \<Rightarrow> world \<Rightarrow> exn option \<times> world" where
  "fetch_and_save env pdf_url save_path w =
     (let response = http_get env (length (gets w)) pdf_url;
          w = w\<lparr>gets := gets w @ [pdf_url]\<rparr>
      in case response of
           GetRaises e \<Rightarrow> (Some e, w)
         | Response status chunks stream_err \<Rightarrow>
             if is_error_status status then (Some (HTTPError status), w)
             else
               (case open_wb save_path w of
                  (Some e, w) \<Rightarrow> (Some e, w)
                | (None, w) \<Rightarrow>
                    let w = write_chunks save_path chunks w
                    in (case stream_err of
                          Some e \<Rightarrow> (Some e, w)
                        | None \<Rightarrow> (None, print (Success_Downloaded save_path) w))))"

definition download_pdf_file :: "env \<Rightarrow> json \<Rightarrow> pystr \<Rightarrow> world \<Rightarrow> exn option \<times> world" where
  "download_pdf_file env pdf_url save_directory w =
     (case makedirs save_directory w of
        (Some e, w) \<Rightarrow> (Some e, w)
      | (None, w) \<Rightarrow>
          (case urlparse_path env pdf_url of
             Inl e \<Rightarrow> (Some e, w)
           | Inr path \<Rightarrow>
               let raw_filename = basename path;
                   safe_filename = sanitize_filename raw_filename
               in if safe_filename = []
                  then (None, print (Warning_Skipped_Invalid pdf_url raw_filename) w)
                  else
                    let save_path = join save_directory safe_filename
                    in if path_exists w save_path
                       then (None, print (Info_Skipped_Exists save_path) w)
                       else
                         (case fetch_and_save env pdf_url save_path w of
                            (Some error, w) \<Rightarrow>
                              if is_RequestException error
                              then (None, print (Warning_Failed pdf_url error) w)
                              else (Some error, w)
                          | (None, w) \<Rightarrow> (None, w))))"

section \<open>The validator\<close>

definition delete_file :: "pystr \<Rightarrow> world \<Rightarrow> exn option \<times> world" where
  "delete_file file_path w = (if path_exists w file_path then os_remove file_path w else (None, w))"

definition is_under :: "pystr \<Rightarrow> pystr \<Rightarrow> bool" where
  "is_under directory k =
     (let prefix = (if endswith directory (S ''/'') then directory else directory @ S ''/'')
      in startswith k prefix \<and> length prefix < length k)"

text \<open>
  The walk of \<open>list_files_with_extension\<close>: the files below the directory whose name
  ends with the extension, each under its absolute path, in the order of the table.
\<close>

definition list_files_with_extension :: "pystr \<Rightarrow> pystr \<Rightarrow> world \<Rightarrow> pystr list" where
  "list_files_with_extension directory extension w =
     (if isdir w directory
      then map fst
             (filter (\<lambda>(k, n). n \<noteq> Dir \<and> is_under (abspath w directory) k
                                \<and> endswith (basename k) extension)
                (fs w))
      else [])"

definition fitz_open_path :: "env \<Rightarrow> pystr \<Rightarrow> world \<Rightarrow> fitz_result" where
  "fitz_open_path env pdf_path w =
     (case lookup w pdf_path of
        Some (File content) \<Rightarrow> fitz_open env pdf_path content
      | _ \<Rightarrow> OpenFails)"

definition is_valid_pdf :: "env \<Rightarrow> pystr \<Rightarrow> world \<Rightarrow> bool \<times> world" where
  "is_valid_pdf env pdf_path w =
     (case fitz_open_path env pdf_path w of
        Opened page_count \<Rightarrow>
          if page_count = 0 then (False, print (Error_No_Pages pdf_path) w) else (True, w)
      | OpenFails \<Rightarrow> (False, print (Error_Corrupted pdf_path) w))"

definition isupper :: "env \<Rightarrow> nat \<Rightarrow> bool" where
  "isupper env c = (if c < 128 then is_upper_ascii c else isupper_beyond_ascii env c)"

definition contains_uppercase :: "env \<Rightarrow> pystr \<Rightarrow> bool" where
  "contains_uppercase env text = list_ex (isupper env) text"

definition get_filename_from_path :: "pystr \<Rightarrow> pystr" where
  "get_filename_from_path file_path = basename file_path"

section \<open>The main program\<close>


definition pdf_download_directory :: pystr where
  "pdf_download_directory = S ''./PDFs''"

text \<open>The loop over the links of a page, with its \<open>except Exception\<close>.\<close>

fun download_all :: "env \<Rightarrow> json list \<Rightarrow> world \<Rightarrow> world" where
  "download_all env [] w = w"
| "download_all env (pdf_url # pdf_urls) w =
     (case download_pdf_file env pdf_url pdf_download_directory w of
        (None, w) \<Rightarrow> download_all env pdf_urls w
      | (Some error, w) \<Rightarrow>
          download_all env pdf_urls (print (Error_Unexpected pdf_url error) (sleep 30 w)))"



text \<open>The validation loop; nothing guards it, so an exception ends it.\<close>

fun validate_files :: "env \<Rightarrow> pystr list \<Rightarrow> world \<Rightarrow> exn option \<times> world" where
  "validate_files env [] w = (None, w)"
| "validate_files env (pdf_file # pdf_files) w =
     (case is_valid_pdf env pdf_file w of
        (valid, w) \<Rightarrow>
          (case (if \<not> valid then delete_file pdf_file (print (Warning_Removing pdf_file) w)
                 else (None, w)) of
             (Some error, w) \<Rightarrow> (Some error, w)
           | (None, w) \<Rightarrow>
               validate_files env pdf_files
                 (if contains_uppercase env (get_filename_from_path pdf_file)
                  then print (Notice_Uppercase pdf_file) w else w)))"




section \<open>Reference definitions for the claims\<close>



fun is_notice :: "log \<Rightarrow> bool" where
  "is_notice (Notice_Uppercase _) = True"
| "is_notice _ = False"

text \<open>
  The validation loop as the specification words it apart from the uppercase check:
  every invalid file is removed, and nothing else is done.
\<close>

fun remove_invalid_files :: "env \<Rightarrow> pystr list \<Rightarrow> world \<Rightarrow> exn option \<times> world" where
  "remove_invalid_files env [] w = (None, w)"
| "remove_invalid_files env (pdf_file # pdf_files) w =
     (case is_valid_pdf env pdf_file w of
        (valid, w) \<Rightarrow>
          (case (if \<not> valid then delete_file pdf_file (print (Warning_Removing pdf_file) w)
                 else (None, w)) of
             (Some error, w) \<Rightarrow> (Some error, w)
           | (None, w) \<Rightarrow> remove_invalid_files env pdf_files w))"

text \<open>The first statement of the body of the validation loop.\<close>

definition remove_if_invalid :: "env \<Rightarrow> pystr \<Rightarrow> world \<Rightarrow> exn option \<times> world" where
  "remove_if_invalid env pdf_file w =
     (case is_valid_pdf env pdf_file w of
        (valid, w) \<Rightarrow>
          if \<not> valid then delete_file pdf_file (print (Warning_Removing pdf_file) w)
          else (None, w))"

text \<open>Two worlds that differ at most in what has been printed.\<close>

definition same_but_out :: "world \<Rightarrow> world \<Rightarrow> bool" where
  "same_but_out w w' =
     (cwd w = cwd w' \<and> fs w = fs w' \<and> gets w = gets w' \<and> posts w = posts w'
      \<and> slept w = slept w')"

text \<open>\<open>fitz.open\<close> gives a document with at least one page.\<close>

definition opens_with_pages :: "env \<Rightarrow> pystr \<Rightarrow> world \<Rightarrow> bool" where
  "opens_with_pages env pdf_path w =
     (case fitz_open_path env pdf_path w of Opened page_count \<Rightarrow> 0 < page_count
      | OpenFails \<Rightarrow> False)"

text \<open>
  The table of the file system is well formed when no path occurs twice and every path
  is its own absolute normal form.
\<close>

definition wf_fs :: "world \<Rightarrow> bool" where
  "wf_fs w =
     (distinct (map fst (fs w))
      \<and> list_all (\<lambda>k. k \<noteq> [] \<and> abspath w k = k) (map fst (fs w)))"

text \<open>
  Paths as the walk lists them: each once, each its own absolute normal form, each a file.
\<close>

definition listed :: "world \<Rightarrow> pystr list \<Rightarrow> bool" where
  "listed w ps = (distinct ps
     \<and> (\<forall>p \<in> set ps. p \<noteq> [] \<and> abspath w p = p \<and> (\<exists>c. map_of (fs w) p = Some (File c))))"

section \<open>A small world for the examples\<close>

text \<open>
  For a URL of the form \<open>scheme://host/path?query#fragment\<close> this is the path that
  \<open>urlparse\<close> gives; a value that is no string has no \<open>decode\<close>.
\<close>

definition example_urlparse_path :: "json \<Rightarrow> exn + pystr" where
  "example_urlparse_path v =
     (case v of
        JString url \<Rightarrow>
          (let after_scheme = drop 1 (dropWhile (\<lambda>c. c \<noteq> ch CHR '':'') url);
               after_netloc =
                 (if startswith after_scheme (S ''//'')
                  then dropWhile (\<lambda>c. c \<noteq> ch CHR ''/'') (drop 2 after_scheme)
                  else after_scheme)
           in Inr (takeWhile (\<lambda>c. c \<noteq> ch CHR ''?'' \<and> c \<noteq> ch CHR ''#'') after_netloc))
      | _ \<Rightarrow> Inl AttributeError)"

definition example_get :: "nat \<Rightarrow> json \<Rightarrow> http_result" where
  "example_get n url =
     (if url = JString (S ''https://x/A.pdf'')
        then Response 200 [S ''%PDF-'', [], S ''1.7''] None
      else if url = JString (S ''https://x/cut.pdf'')
        then Response 200 [S ''%PDF-''] (Some RequestException)
      else if url = JString (S ''https://x/gone.pdf'') then Response 404 [S ''no''] None
      else GetRaises RequestException)"

definition example_post :: "nat \<Rightarrow> page_request \<Rightarrow> exn + pystr" where
  \<open>example_post n request =
     (if currentPage request = 1
        then Inr (S ''{"items":[{"link":"https://x/A.pdf"},{"link":"https://x/A.pdf"}]}'')
      else if currentPage request = 2 then Inr (S ''{"items":[{"link":7}]}'')
      else if currentPage request = 3 then Inr (S ''<html>'')
      else Inl OSError)\<close>

definition example_fitz :: "pystr \<Rightarrow> bytes \<Rightarrow> fitz_result" where
  "example_fitz path content =
     (if startswith content (S ''%PDF-'') then Opened 1
      else if content = [] then OpenFails
      else Opened 0)"

definition example_env :: env where
  "example_env =
     \<lparr>urlparse_path = example_urlparse_path, http_get = example_get,
      https_post = example_post, fitz_open = example_fitz,
      isupper_beyond_ascii = (\<lambda>c. False)\<rparr>"

definition example_world :: world where
  "example_world =
     \<lparr>cwd = S ''/srv/job'',
      fs = [(S ''/'', Dir), (S ''/srv'', Dir), (S ''/srv/job'', Dir)],
      gets = [], posts = [], out = [], slept = []\<rparr>"


text \<open>The example world once \<open>./PDFs\<close> exists, and once \<open>A.pdf\<close> has been downloaded.\<close>

definition example_world_1 :: world where
  "example_world_1 = example_world\<lparr>fs := fs example_world @ [(S ''/srv/job/PDFs'', Dir)]\<rparr>"

definition example_world_2 :: world where
  "example_world_2 =
     example_world_1
       \<lparr>fs := fs example_world_1 @ [(S ''/srv/job/PDFs/a.pdf'', File (S ''%PDF-1.7''))],
        gets := [JString (S ''https://x/A.pdf'')],
        out := [Success_Downloaded (S ''./PDFs/a.pdf'')]\<rparr>"

text \<open>
  A world to validate: a good file, an empty one, one without pages in a subdirectory,
  and a text file.
\<close>

definition example_world_3 :: world where
  "example_world_3 =
     example_world_1
       \<lparr>fs := fs example_world_1 @
          [(S ''/srv/job/PDFs/a.pdf'', File (S ''%PDF-1.7'')),
           (S ''/srv/job/PDFs/Bad.pdf'', File []),
           (S ''/srv/job/PDFs/old'', Dir),
           (S ''/srv/job/PDFs/old/zero.pdf'', File (S ''x'')),
           (S ''/srv/job/PDFs/notes.txt'', File (S ''%PDF-''))]\<rparr>"

text \<open>That world after its validation.\<close>

definition example_world_4 :: world where
  "example_world_4 =
     example_world_1
       \<lparr>fs := fs example_world_1 @
          [(S ''/srv/job/PDFs/a.pdf'', File (S ''%PDF-1.7'')),
           (S ''/srv/job/PDFs/old'', Dir),
           (S ''/srv/job/PDFs/notes.txt'', File (S ''%PDF-''))],
        out := [Error_Corrupted (S ''/srv/job/PDFs/Bad.pdf''),
                Warning_Removing (S ''/srv/job/PDFs/Bad.pdf''),
                Notice_Uppercase (S ''/srv/job/PDFs/Bad.pdf''),
                Error_No_Pages (S ''/srv/job/PDFs/old/zero.pdf''),
                Warning_Removing (S ''/srv/job/PDFs/old/zero.pdf'')]\<rparr>"

section \<open>Properties of the sanitizer\<close>

lemma unquote_id: "ch CHR ''%'' \<notin> set s \<Longrightarrow> unquote s = s"
  by (simp add: unquote_def)

lemma rfind_absent: "c \<notin> set p \<Longrightarrow> rfind p c = - 1"
  by (simp add: rfind_def)

lemma basename_id: "ch CHR ''/'' \<notin> set p \<Longrightarrow> basename p = p"
  by (simp add: basename_def rfind_absent)

lemma rfind_pdf:
  assumes "ch CHR ''.'' \<notin> set b"
  shows "rfind (b @ S ''.pdf'') (ch CHR ''.'') = int (length b)"
  by (simp add: rfind_def)

lemma splitext_pdf:
  assumes "ch CHR ''.'' \<notin> set b" "ch CHR ''/'' \<notin> set b" "b \<noteq> []"
  shows "splitext (b @ S ''.pdf'') = (b, S ''.pdf'')"
proof -
  have sep: "rfind (b @ S ''.pdf'') (ch CHR ''/'') = - 1"
    using assms(2) by (simp add: rfind_absent)
  have ex: "list_ex (\<lambda>c. c \<noteq> ch CHR ''.'') b"
    using assms(1,3) by (cases b) (auto simp: list_ex_iff)
  show ?thesis
    unfolding splitext_def sep rfind_pdf[OF assms(1)]
    using ex by (simp add: slice_def)
qed

lemma word_not_special:
  "is_word c \<Longrightarrow> c \<noteq> ch CHR ''%'' \<and> c \<noteq> ch CHR ''/'' \<and> c \<noteq> ch CHR ''.''"
  by (auto simp: is_word_def is_alnum_def is_upper_ascii_def is_lower_ascii_def is_digit_def)

lemma sub_nonword_word: "list_all is_word (sub_nonword s)"
  by (induction s) (auto simp: sub_nonword_def is_word_def)

lemma sub_nonword_id: "list_all is_word s \<Longrightarrow> sub_nonword s = s"
  by (induction s) (auto simp: sub_nonword_def)

lemma sub_underscores_set: "set (sub_underscores s) \<subseteq> set s"
  by (induction s rule: sub_underscores.induct) auto

lemma sub_underscores_hd: "sub_underscores (d # cs) \<noteq> [] \<and> hd (sub_underscores (d # cs)) = d"
  by (induction cs arbitrary: d) auto

lemma no_run_sub_underscores: "no_run (sub_underscores s)"
proof (induction s rule: sub_underscores.induct)
  case (3 c d cs)
  obtain r where r: "sub_underscores (d # cs) = d # r"
    using sub_underscores_hd[of d cs] by (cases "sub_underscores (d # cs)") auto
  with 3 show ?case by auto
qed simp_all

lemma no_run_id: "no_run s \<Longrightarrow> sub_underscores s = s"
  by (induction s rule: sub_underscores.induct) auto

lemma no_run_append: "no_run (xs @ ys) \<Longrightarrow> no_run xs \<and> no_run ys"
proof (induction xs rule: no_run.induct)
  case (2 c)
  then show ?case by (cases ys) auto
qed auto

lemma no_run_dropWhile: "no_run s \<Longrightarrow> no_run (dropWhile P s)"
  using no_run_append[of "takeWhile P s" "dropWhile P s"] by simp

lemma no_run_rstrip: "no_run s \<Longrightarrow> no_run (rev (dropWhile P (rev s)))"
proof -
  have "s = rev (dropWhile P (rev s)) @ rev (takeWhile P (rev s))"
    by (metis rev_append rev_rev_ident takeWhile_dropWhile_id)
  then show "no_run s \<Longrightarrow> no_run (rev (dropWhile P (rev s)))"
    using no_run_append by metis
qed

lemma no_run_strip: "no_run s \<Longrightarrow> no_run (strip_underscores s)"
  by (simp add: strip_underscores_def no_run_rstrip no_run_dropWhile)

lemma lower_char_underscore: "lower_char c = 95 \<longleftrightarrow> c = 95"
  by (auto simp: lower_char_def is_upper_ascii_def)

lemma no_run_lower: "no_run s \<Longrightarrow> no_run (lower s)"
  by (induction s rule: no_run.induct) (auto simp: lower_def lower_char_underscore)

lemma strip_set: "set (strip_underscores s) \<subseteq> set s"
proof -
  have "set (dropWhile P xs) \<subseteq> set xs" for P and xs :: pystr
    by (metis set_dropWhileD subsetI)
  then show ?thesis unfolding strip_underscores_def
    by (metis (no_types, lifting) set_rev subset_trans)
qed

lemma last_dropWhile_eq:
  assumes "dropWhile P xs \<noteq> []"
  shows "last (dropWhile P xs) = last xs"
proof -
  have "last (takeWhile P xs @ dropWhile P xs) = last (dropWhile P xs)"
    using assms by (rule last_appendR)
  then show ?thesis by simp
qed

lemma strip_ends:
  assumes "strip_underscores s \<noteq> []"
  shows "hd (strip_underscores s) \<noteq> ch CHR ''_'' \<and> last (strip_underscores s) \<noteq> ch CHR ''_''"
proof -
  let ?P = "\<lambda>c. c = ch CHR ''_''"
  let ?d = "dropWhile ?P s"
  let ?e = "dropWhile ?P (rev ?d)"
  have e: "?e \<noteq> []" using assms by (simp add: strip_underscores_def)
  have d: "?d \<noteq> []"
  proof
    assume "?d = []"
    then have "?e = dropWhile ?P (rev [])" by (simp only:)
    then have "?e = []" by (simp only: rev.simps dropWhile.simps)
    with e show False by blast
  qed
  have 1: "\<not> ?P (hd ?e)" using e by (rule hd_dropWhile)
  have 2: "\<not> ?P (hd ?d)" using d by (rule hd_dropWhile)
  have "last ?e = last (rev ?d)" using e by (rule last_dropWhile_eq)
  then have 3: "last ?e = hd ?d" using d by (simp add: last_rev)
  have "hd (strip_underscores s) = last ?e" "last (strip_underscores s) = hd ?e"
    using e by (simp_all add: strip_underscores_def hd_rev last_rev)
  with 1 2 3 show ?thesis by simp
qed

lemma strip_id:
  assumes "s = [] \<or> (hd s \<noteq> ch CHR ''_'' \<and> last s \<noteq> ch CHR ''_'')"
  shows "strip_underscores s = s"
proof (cases s)
  case Nil then show ?thesis by (simp add: strip_underscores_def)
next
  case (Cons a as)
  with assms have h: "a \<noteq> ch CHR ''_''" and l: "last s \<noteq> ch CHR ''_''" by auto
  have 1: "dropWhile (\<lambda>c. c = ch CHR ''_'') s = s" using h Cons by simp
  have "rev s \<noteq> []" using Cons by simp
  moreover have "hd (rev s) = last s" using Cons by (simp only: hd_rev)
  then have "hd (rev s) \<noteq> ch CHR ''_''" using l by simp
  ultimately have "dropWhile (\<lambda>c. c = ch CHR ''_'') (rev s) = rev s"
    by (cases "rev s") auto
  with 1 show ?thesis by (simp add: strip_underscores_def)
qed

lemma safe_name_word: "list_all is_word (safe_name_of b)"
proof -
  have "set (safe_name_of b) \<subseteq> set (sub_nonword b)"
    unfolding safe_name_of_def using strip_set sub_underscores_set by blast
  then show ?thesis using sub_nonword_word[of b] by (auto simp: list_all_iff)
qed

lemma lower_char_word: "is_word c \<Longrightarrow> is_word (lower_char c)"
  by (auto simp: is_word_def is_alnum_def lower_char_def is_upper_ascii_def is_lower_ascii_def is_digit_def)

lemma lower_word: "list_all is_word s \<Longrightarrow> list_all is_word (lower s)"
  by (induction s) (auto simp: lower_def lower_char_word)

lemma lower_lower: "lower (lower s) = lower s"
  by (induction s) (auto simp: lower_def lower_char_def is_upper_ascii_def)

lemma lower_pdf: "lower (S ''.pdf'') = S ''.pdf''"
  by (simp add: lower_def lower_char_def is_upper_ascii_def)

lemma safe_name_lower_fixed: "safe_name_of (lower (safe_name_of b)) = lower (safe_name_of b)"
proof -
  let ?t = "safe_name_of b"
  have w: "list_all is_word (lower ?t)" by (simp add: lower_word safe_name_word)
  have nr: "no_run (lower ?t)"
    unfolding safe_name_of_def by (intro no_run_lower no_run_strip no_run_sub_underscores)
  have ends: "lower ?t = [] \<or> (hd (lower ?t) \<noteq> ch CHR ''_'' \<and> last (lower ?t) \<noteq> ch CHR ''_'')"
  proof (cases "?t = []")
    case True then show ?thesis by (simp add: lower_def)
  next
    case False
    then have "hd ?t \<noteq> ch CHR ''_'' \<and> last ?t \<noteq> ch CHR ''_''"
      unfolding safe_name_of_def by (rule strip_ends)
    with False show ?thesis
      by (simp add: lower_def hd_map last_map lower_char_underscore)
  qed
  show ?thesis
    unfolding safe_name_of_def[of "lower ?t"]
    by (simp only: sub_nonword_id[OF w] no_run_id[OF nr] strip_id[OF ends])
qed

lemma sanitize_filename_cases:
  "sanitize_filename x =
     (if safe_name_of (decoded_base_name x) = [] then []
      else lower (safe_name_of (decoded_base_name x)) @ S ''.pdf'')"
  by (simp add: sanitize_filename_def safe_name_of_def decoded_base_name_def Let_def
      lower_pdf [simplified] split: prod.split)

lemma sanitize_filename_empty: "sanitize_filename [] = []"
  by (simp add: sanitize_filename_cases decoded_base_name_def unquote_def basename_def
      splitext_def rfind_def safe_name_of_def sub_nonword_def strip_underscores_def slice_def)

lemma lower_pattern: "list_all is_word s \<Longrightarrow> list_all is_pattern_char (lower s)"
  by (induction s)
     (auto simp: lower_def lower_char_def is_word_def is_alnum_def is_pattern_char_def
        is_upper_ascii_def is_lower_ascii_def is_digit_def)

subsection \<open>Idempotence\<close>

text \<open>
  C1. The sanitizer is idempotent: for every input string, sanitizing the result of the
  sanitizer gives that result again.
\<close>

theorem sanitize_filename_idempotent:
  "sanitize_filename (sanitize_filename x) = sanitize_filename x"
proof -
  define t where "t = safe_name_of (decoded_base_name x)"
  show ?thesis
  proof (cases "t = []")
    case True
    then have "sanitize_filename x = []" by (simp add: sanitize_filename_cases t_def)
    then show ?thesis by (simp add: sanitize_filename_empty)
  next
    case False
    let ?u = "lower t"
    have sx: "sanitize_filename x = ?u @ S ''.pdf''"
      using False by (simp add: sanitize_filename_cases t_def)
    have w: "list_all is_word ?u" unfolding t_def by (simp add: lower_word safe_name_word)
    then have nsp: "ch CHR ''%'' \<notin> set ?u" "ch CHR ''/'' \<notin> set ?u" "ch CHR ''.'' \<notin> set ?u"
      using word_not_special by (auto simp: list_all_iff)
    have ne: "?u \<noteq> []" using False by (simp add: lower_def)
    have "unquote (?u @ S ''.pdf'') = ?u @ S ''.pdf''"
      using nsp(1) by (intro unquote_id) simp
    moreover have "basename (?u @ S ''.pdf'') = ?u @ S ''.pdf''"
      using nsp(2) by (intro basename_id) simp
    moreover have "splitext (?u @ S ''.pdf'') = (?u, S ''.pdf'')"
      using nsp ne by (intro splitext_pdf)
    ultimately have "decoded_base_name (?u @ S ''.pdf'') = ?u"
      by (simp add: decoded_base_name_def)
    moreover have "safe_name_of ?u = ?u" unfolding t_def by (rule safe_name_lower_fixed)
    ultimately have "sanitize_filename (?u @ S ''.pdf'') = ?u @ S ''.pdf''"
      using ne by (simp add: sanitize_filename_cases lower_lower)
    with sx show ?thesis by simp
  qed
qed

theorem sanitize_filename_idempotent_witness:
  "sanitize_filename (S ''Data%20Sheet%C3%A9--v2.PDF'') = S ''data_sheet_v2.pdf''
   \<and> sanitize_filename (sanitize_filename (S ''Data%20Sheet%C3%A9--v2.PDF''))
       = S ''data_sheet_v2.pdf''"
  using sanitize_filename_idempotent [of "S ''Data%20Sheet%C3%A9--v2.PDF''"]
  by code_simp

subsection \<open>Shape of the result\<close>

text \<open>
  C2. Whenever the sanitizer returns a non-empty name, the name matches
  \<open>^[a-z0-9_]+\.pdf$\<close>; it is built from the base name alone, so whatever extension the
  input had is gone and \<open>.pdf\<close> stands in its place.
\<close>

theorem sanitize_filename_pattern:
  assumes "sanitize_filename x \<noteq> []"
  shows "matches_pdf_pattern (sanitize_filename x)
         \<and> sanitize_filename x = lower (safe_name_of (decoded_base_name x)) @ S ''.pdf''"
proof -
  let ?t = "safe_name_of (decoded_base_name x)"
  have ne: "?t \<noteq> []" using assms by (auto simp: sanitize_filename_cases split: if_splits)
  then have sx: "sanitize_filename x = lower ?t @ S ''.pdf''"
    by (simp add: sanitize_filename_cases)
  have "list_all is_pattern_char (lower ?t)" by (simp add: lower_pattern safe_name_word)
  moreover have "lower ?t \<noteq> []" using ne by (simp add: lower_def)
  ultimately have "matches_pdf_pattern (lower ?t @ S ''.pdf'')"
    by (simp add: matches_pdf_pattern_def)
  with sx show ?thesis by simp
qed

theorem sanitize_filename_pattern_witness:
  "sanitize_filename (S ''docs/Report%20V2.final.TXT'') = S ''report_v2_final.pdf''
   \<and> matches_pdf_pattern (S ''report_v2_final.pdf'')
   \<and> decoded_base_name (S ''docs/Report%20V2.final.TXT'') = S ''Report V2.final''"
proof -
  have ne: "sanitize_filename (S ''docs/Report%20V2.final.TXT'') \<noteq> []" by code_simp
  have v: "sanitize_filename (S ''docs/Report%20V2.final.TXT'') = S ''report_v2_final.pdf''"
    by code_simp
  have d: "decoded_base_name (S ''docs/Report%20V2.final.TXT'') = S ''Report V2.final''"
    by code_simp
  have "matches_pdf_pattern (sanitize_filename (S ''docs/Report%20V2.final.TXT''))"
    using sanitize_filename_pattern [OF ne] by (rule conjunct1)
  then have "matches_pdf_pattern (S ''report_v2_final.pdf'')" by (simp only: v)
  with v d show ?thesis by blast
qed

section \<open>Properties of the link extractor\<close>








section \<open>Properties of the downloader\<close>

subsection \<open>The sanitizer returns nothing exactly when no letter or digit is left\<close>

lemma dropWhile_keeps: "x \<in> set xs \<Longrightarrow> \<not> P x \<Longrightarrow> x \<in> set (dropWhile P xs)"
  by (induction xs) auto

lemma strip_keeps: "c \<in> set s \<Longrightarrow> c \<noteq> 95 \<Longrightarrow> c \<in> set (strip_underscores s)"
  by (simp add: strip_underscores_def dropWhile_keeps)

lemma sub_underscores_keeps: "c \<in> set s \<Longrightarrow> c \<noteq> 95 \<Longrightarrow> c \<in> set (sub_underscores s)"
  by (induction s rule: sub_underscores.induct) auto

lemma alnum_not_underscore: "is_alnum c \<Longrightarrow> c \<noteq> 95"
  by (auto simp: is_alnum_def is_upper_ascii_def is_lower_ascii_def is_digit_def)

lemma dropWhile_all: "list_all P xs \<Longrightarrow> dropWhile P xs = []"
  by (induction xs) auto

lemma safe_name_empty_iff:
  "safe_name_of b = [] \<longleftrightarrow> list_all (\<lambda>c. \<not> is_alnum c) b"
proof
  assume e: "safe_name_of b = []"
  show "list_all (\<lambda>c. \<not> is_alnum c) b"
  proof (rule ccontr)
    assume "\<not> list_all (\<lambda>c. \<not> is_alnum c) b"
    then obtain c where c: "c \<in> set b" "is_alnum c" by (auto simp: list_all_iff)
    then have "c \<in> set (sub_nonword b)" by (force simp: sub_nonword_def is_word_def)
    then have "c \<in> set (safe_name_of b)"
      unfolding safe_name_of_def
      using alnum_not_underscore[OF c(2)] by (intro strip_keeps sub_underscores_keeps)
    with e show False by simp
  qed
next
  assume a: "list_all (\<lambda>c. \<not> is_alnum c) b"
  have "list_all (\<lambda>c. c = ch CHR ''_'') (sub_nonword b)"
    using a by (induction b) (auto simp: sub_nonword_def is_word_def)
  then have "list_all (\<lambda>c. c = ch CHR ''_'') (sub_underscores (sub_nonword b))"
    using sub_underscores_set[of "sub_nonword b"] by (auto simp: list_all_iff)
  then have "dropWhile (\<lambda>c. c = ch CHR ''_'') (sub_underscores (sub_nonword b)) = []"
    by (rule dropWhile_all)
  then show "safe_name_of b = []"
    by (simp only: safe_name_of_def strip_underscores_def rev.simps dropWhile.simps)
qed

lemma sanitize_filename_empty_iff:
  "sanitize_filename f = [] \<longleftrightarrow> list_all (\<lambda>c. \<not> is_alnum c) (decoded_base_name f)"
  by (simp add: sanitize_filename_cases safe_name_empty_iff lower_def)

subsection \<open>What the file system operations leave alone\<close>

lemma print_fields [simp]:
  "cwd (print l w) = cwd w" "fs (print l w) = fs w" "gets (print l w) = gets w"
  "posts (print l w) = posts w" "slept (print l w) = slept w" "out (print l w) = out w @ [l]"
  by (simp_all add: print_def)

lemma sleep_fields [simp]:
  "cwd (sleep n w) = cwd w" "fs (sleep n w) = fs w" "gets (sleep n w) = gets w"
  "posts (sleep n w) = posts w" "out (sleep n w) = out w" "slept (sleep n w) = slept w @ [n]"
  by (simp_all add: sleep_def)

lemma abspath_cwd: "cwd w' = cwd w \<Longrightarrow> abspath w' p = abspath w p"
  by (simp add: abspath_def)

lemma file_at_fs: "fs w' = fs w \<Longrightarrow> file_at w' = file_at w"
  by (auto simp: file_at_def fun_eq_iff)

lemma mkdir_chain_frame:
  "cwd (snd (mkdir_chain ps w)) = cwd w \<and> gets (snd (mkdir_chain ps w)) = gets w
   \<and> posts (snd (mkdir_chain ps w)) = posts w \<and> out (snd (mkdir_chain ps w)) = out w
   \<and> slept (snd (mkdir_chain ps w)) = slept w"
  by (induction ps arbitrary: w) (auto split: option.splits node.splits)

lemma mkdir_chain_old:
  "map_of (fs w) k = Some n \<Longrightarrow> map_of (fs (snd (mkdir_chain ps w))) k = Some n"
proof (induction ps arbitrary: w)
  case Nil
  then show ?case by simp
next
  case (Cons p ps)
  show ?case
  proof (cases "map_of (fs w) p")
    case None
    have "map_of (fs (w\<lparr>fs := fs w @ [(p, Dir)]\<rparr>)) k = Some n"
      using Cons.prems by (simp add: map_add_Some_iff)
    from Cons.IH[OF this] None show ?thesis by simp
  next
    case (Some m)
    with Cons show ?thesis by (cases m) auto
  qed
qed

lemma mkdir_chain_new:
  "map_of (fs (snd (mkdir_chain ps w))) k = Some (File c) \<Longrightarrow> map_of (fs w) k = Some (File c)"
proof (induction ps arbitrary: w)
  case Nil
  then show ?case by simp
next
  case (Cons p ps)
  show ?case
  proof (cases "map_of (fs w) p")
    case None
    with Cons.prems
    have "map_of (fs (snd (mkdir_chain ps (w\<lparr>fs := fs w @ [(p, Dir)]\<rparr>)))) k = Some (File c)"
      by simp
    then have "map_of (fs (w\<lparr>fs := fs w @ [(p, Dir)]\<rparr>)) k = Some (File c)"
      by (rule Cons.IH)
    then have "(map_of [(p, Dir)] ++ map_of (fs w)) k = Some (File c)" by simp
    then show ?thesis by (auto simp: map_add_Some_iff split: if_splits)
  next
    case (Some m)
    with Cons show ?thesis by (cases m) auto
  qed
qed

lemma mkdir_chain_file_at: "file_at (snd (mkdir_chain ps w)) = file_at w"
proof
  fix k
  show "file_at (snd (mkdir_chain ps w)) k = file_at w k"
  proof (cases "map_of (fs w) k")
    case None
    then show ?thesis
      using mkdir_chain_new[of ps w k]
      by (auto simp: file_at_def split: option.splits node.splits)
  next
    case (Some n)
    from mkdir_chain_old[OF this] Some show ?thesis by (simp add: file_at_def)
  qed
qed

lemma mkdir_chain_dirs:
  "fst (mkdir_chain ps w) = None \<Longrightarrow> p \<in> set ps
   \<Longrightarrow> map_of (fs (snd (mkdir_chain ps w))) p = Some Dir"
proof (induction ps arbitrary: w)
  case Nil
  then show ?case by simp
next
  case (Cons q qs)
  show ?case
  proof (cases "map_of (fs w) q")
    case None
    let ?w = "w\<lparr>fs := fs w @ [(q, Dir)]\<rparr>"
    have r: "mkdir_chain (q # qs) w = mkdir_chain qs ?w" using None by simp
    have q: "map_of (fs ?w) q = Some Dir" using None by (simp add: map_add_Some_iff)
    show ?thesis
    proof (cases "p = q")
      case True
      with mkdir_chain_old[OF q] r show ?thesis by simp
    next
      case False
      with Cons r show ?thesis by simp
    qed
  next
    case (Some m)
    show ?thesis
    proof (cases m)
      case (File c)
      with Some Cons.prems show ?thesis by simp
    next
      case Dir
      then have r: "mkdir_chain (q # qs) w = mkdir_chain qs w" using Some by simp
      show ?thesis
      proof (cases "p = q")
        case True
        with Some Dir mkdir_chain_old[of w q Dir qs] r show ?thesis by simp
      next
        case False
        with Cons r show ?thesis by simp
      qed
    qed
  qed
qed

lemma mkdir_chain_noop:
  "(\<And>p. p \<in> set ps \<Longrightarrow> map_of (fs w) p = Some Dir) \<Longrightarrow> mkdir_chain ps w = (None, w)"
  by (induction ps) auto

lemma makedirs_frame:
  "cwd (snd (makedirs d w)) = cwd w \<and> gets (snd (makedirs d w)) = gets w
   \<and> posts (snd (makedirs d w)) = posts w \<and> out (snd (makedirs d w)) = out w
   \<and> slept (snd (makedirs d w)) = slept w"
  by (simp add: makedirs_def mkdir_chain_frame)

lemma makedirs_file_at: "file_at (snd (makedirs d w)) = file_at w"
  by (simp add: makedirs_def mkdir_chain_file_at)

lemma makedirs_isdir: "fst (makedirs d w) = None \<Longrightarrow> isdir (snd (makedirs d w)) d"
proof -
  assume ok: "fst (makedirs d w) = None"
  then have d: "d \<noteq> []" by (auto simp: makedirs_def split: if_splits)
  then have m: "makedirs d w = mkdir_chain (dir_chain (abspath w d)) w"
    by (simp add: makedirs_def)
  have "abspath w d \<in> set (dir_chain (abspath w d))" by (simp add: dir_chain_def Let_def)
  from mkdir_chain_dirs[OF ok[unfolded m] this]
  have "map_of (fs (snd (makedirs d w))) (abspath w d) = Some Dir" by (simp only: m)
  moreover have "abspath (snd (makedirs d w)) d = abspath w d"
    using makedirs_frame[of d w] by (intro abspath_cwd) simp
  ultimately show ?thesis using d by (simp add: isdir_def lookup_def)
qed


lemmas path_eval = abspath_def isabs_def join_def normpath_def startswith_def endswith_def
  dirname_def rfind_def dir_chain_def basename_def

lemmas world_eval = makedirs_def open_wb_def file_write_def lookup_def path_exists_def
  isdir_def print_def sleep_def os_remove_def delete_file_def

subsection \<open>What a download leaves alone\<close>

lemma open_wb_frame:
  "cwd (snd (open_wb p w)) = cwd w \<and> gets (snd (open_wb p w)) = gets w
   \<and> posts (snd (open_wb p w)) = posts w \<and> out (snd (open_wb p w)) = out w
   \<and> slept (snd (open_wb p w)) = slept w"
  by (simp add: open_wb_def Let_def)

lemma open_wb_dirs:
  "map_of (fs w) k = Some Dir \<Longrightarrow> map_of (fs (snd (open_wb p w))) k = Some Dir"
  by (auto simp: open_wb_def Let_def update_conv')

lemma open_wb_file:
  "fst (open_wb p w) = None \<Longrightarrow> map_of (fs (snd (open_wb p w))) (abspath w p) = Some (File [])"
  by (auto simp: open_wb_def Let_def update_conv' split: if_splits)

lemma open_wb_nonempty: "fst (open_wb p w) = None \<Longrightarrow> p \<noteq> []"
  by (auto simp: open_wb_def Let_def split: if_splits)

lemma open_wb_error: "fst (open_wb p w) = Some e \<Longrightarrow> snd (open_wb p w) = w"
  by (auto simp: open_wb_def Let_def split: if_splits)

lemma file_write_frame:
  "cwd (file_write p c w) = cwd w \<and> gets (file_write p c w) = gets w
   \<and> posts (file_write p c w) = posts w \<and> out (file_write p c w) = out w
   \<and> slept (file_write p c w) = slept w"
  by (simp add: file_write_def Let_def split: option.splits node.splits)

lemma file_write_dirs:
  "map_of (fs w) k = Some Dir \<Longrightarrow> map_of (fs (file_write p c w)) k = Some Dir"
  by (auto simp: file_write_def Let_def update_conv' split: option.splits node.splits)

lemma file_write_file:
  "map_of (fs w) k = Some (File d)
   \<Longrightarrow> \<exists>d'. map_of (fs (file_write p c w)) k = Some (File d')"
  by (auto simp: file_write_def Let_def update_conv' split: option.splits node.splits)

lemma write_chunks_frame:
  "cwd (write_chunks p cs w) = cwd w \<and> gets (write_chunks p cs w) = gets w
   \<and> posts (write_chunks p cs w) = posts w \<and> out (write_chunks p cs w) = out w
   \<and> slept (write_chunks p cs w) = slept w"
  by (induction cs arbitrary: w) (simp_all add: file_write_frame)

lemma write_chunks_dirs:
  "map_of (fs w) k = Some Dir \<Longrightarrow> map_of (fs (write_chunks p cs w)) k = Some Dir"
  by (induction cs arbitrary: w) (simp_all add: file_write_dirs)

lemma write_chunks_file:
  "map_of (fs w) k = Some (File d)
   \<Longrightarrow> \<exists>d'. map_of (fs (write_chunks p cs w)) k = Some (File d')"
proof (induction cs arbitrary: w d)
  case Nil
  then show ?case by simp
next
  case (Cons c cs)
  show ?case
  proof (cases "c = []")
    case True
    with Cons show ?thesis by simp
  next
    case False
    from file_write_file[OF Cons.prems, of p c]
    obtain d' where "map_of (fs (file_write p c w)) k = Some (File d')" by blast
    from Cons.IH[OF this] False show ?thesis by simp
  qed
qed

text \<open>The outcomes of the body of the \<open>try\<close>.\<close>

lemma fetch_and_save_cases:
  obtains
    (raises) e where "http_get env (length (gets w)) url = GetRaises e"
      "fetch_and_save env url p w = (Some e, w\<lparr>gets := gets w @ [url]\<rparr>)"
  | (status) st cs se where "http_get env (length (gets w)) url = Response st cs se"
      "is_error_status st"
      "fetch_and_save env url p w = (Some (HTTPError st), w\<lparr>gets := gets w @ [url]\<rparr>)"
  | (noopen) st cs se e where "http_get env (length (gets w)) url = Response st cs se"
      "\<not> is_error_status st"
      "fetch_and_save env url p w = (Some e, w\<lparr>gets := gets w @ [url]\<rparr>)"
  | (cut) st cs e w2 where "http_get env (length (gets w)) url = Response st cs (Some e)"
      "\<not> is_error_status st" "open_wb p (w\<lparr>gets := gets w @ [url]\<rparr>) = (None, w2)"
      "fetch_and_save env url p w = (Some e, write_chunks p cs w2)"
  | (saved) st cs w2 where "http_get env (length (gets w)) url = Response st cs None"
      "\<not> is_error_status st" "open_wb p (w\<lparr>gets := gets w @ [url]\<rparr>) = (None, w2)"
      "fetch_and_save env url p w
         = (None, print (Success_Downloaded p) (write_chunks p cs w2))"
proof (cases "http_get env (length (gets w)) url")
  case (GetRaises e)
  then show ?thesis using raises by (simp add: fetch_and_save_def)
next
  case (Response st cs se)
  let ?w = "w\<lparr>gets := gets w @ [url]\<rparr>"
  show ?thesis
  proof (cases "is_error_status st")
    case True
    with Response show ?thesis using status by (simp add: fetch_and_save_def)
  next
    case False
    obtain r w2 where o: "open_wb p ?w = (r, w2)" by (cases "open_wb p ?w")
    show ?thesis
    proof (cases r)
      case (Some e)
      with o have "w2 = ?w" using open_wb_error[of p ?w e] by simp
      with Some o Response False show ?thesis
        using noopen by (simp add: fetch_and_save_def)
    next
      case None
      show ?thesis
      proof (cases se)
        case None': None
        with None o Response False show ?thesis
          using saved by (simp add: fetch_and_save_def)
      next
        case (Some e)
        with None o Response False show ?thesis
          using cut by (simp add: fetch_and_save_def)
      qed
    qed
  qed
qed

lemma fetch_and_save_frame:
  "cwd (snd (fetch_and_save env url p w)) = cwd w
   \<and> posts (snd (fetch_and_save env url p w)) = posts w
   \<and> slept (snd (fetch_and_save env url p w)) = slept w
   \<and> gets (snd (fetch_and_save env url p w)) = gets w @ [url]"
proof (cases rule: fetch_and_save_cases[of env w url p])
  case (cut st cs e w2)
  then show ?thesis
    using open_wb_frame[of p "w\<lparr>gets := gets w @ [url]\<rparr>"]
    by (simp add: write_chunks_frame)
next
  case (saved st cs w2)
  then show ?thesis
    using open_wb_frame[of p "w\<lparr>gets := gets w @ [url]\<rparr>"]
    by (simp add: write_chunks_frame)
qed simp_all

lemma fetch_and_save_dirs:
  assumes "map_of (fs w) k = Some Dir"
  shows "map_of (fs (snd (fetch_and_save env url p w))) k = Some Dir"
proof (cases rule: fetch_and_save_cases[of env w url p])
  case (cut st cs e w2)
  have "map_of (fs w2) k = Some Dir"
    using open_wb_dirs[of "w\<lparr>gets := gets w @ [url]\<rparr>" k p] assms cut(3) by simp
  with cut show ?thesis by (simp add: write_chunks_dirs)
next
  case (saved st cs w2)
  have "map_of (fs w2) k = Some Dir"
    using open_wb_dirs[of "w\<lparr>gets := gets w @ [url]\<rparr>" k p] assms saved(3) by simp
  with saved show ?thesis by (simp add: write_chunks_dirs)
qed (simp_all add: assms)

lemma fetch_and_save_fails:
  assumes "request_fails (http_get env (length (gets w)) url)"
  shows "fs (snd (fetch_and_save env url p w)) = fs w
         \<and> fst (fetch_and_save env url p w) \<noteq> None"
  using assms
  by (cases rule: fetch_and_save_cases[of env w url p]) (simp_all add: request_fails_def)


text \<open>The outcomes of \<open>download_pdf_file\<close>, \<open>w1\<close> being the world after \<open>makedirs\<close>.\<close>

lemma download_cases:
  fixes env url dir w
  defines "w1 \<equiv> snd (makedirs dir w)"
  obtains
    (nodir) e where "fst (makedirs dir w) = Some e"
      "download_pdf_file env url dir w = (Some e, w1)"
  | (noparse) e where "fst (makedirs dir w) = None" "urlparse_path env url = Inl e"
      "download_pdf_file env url dir w = (Some e, w1)"
  | (noname) path where "fst (makedirs dir w) = None" "urlparse_path env url = Inr path"
      "sanitize_filename (basename path) = []"
      "download_pdf_file env url dir w
         = (None, print (Warning_Skipped_Invalid url (basename path)) w1)"
  | (present) path where "fst (makedirs dir w) = None" "urlparse_path env url = Inr path"
      "sanitize_filename (basename path) \<noteq> []"
      "path_exists w1 (join dir (sanitize_filename (basename path)))"
      "download_pdf_file env url dir w
         = (None, print (Info_Skipped_Exists (join dir (sanitize_filename (basename path)))) w1)"
  | (fetched) path where "fst (makedirs dir w) = None" "urlparse_path env url = Inr path"
      "sanitize_filename (basename path) \<noteq> []"
      "\<not> path_exists w1 (join dir (sanitize_filename (basename path)))"
      "download_pdf_file env url dir w
         = (case fetch_and_save env url (join dir (sanitize_filename (basename path))) w1 of
              (Some e, w2) \<Rightarrow>
                if is_RequestException e then (None, print (Warning_Failed url e) w2)
                else (Some e, w2)
            | (None, w2) \<Rightarrow> (None, w2))"
proof -
  obtain r where m: "makedirs dir w = (r, w1)" unfolding w1_def by (cases "makedirs dir w") simp
  show ?thesis
  proof (cases r)
    case (Some e)
    with m show ?thesis using nodir by (simp add: download_pdf_file_def)
  next
    case None
    show ?thesis
    proof (cases "urlparse_path env url")
      case (Inl e)
      with m None show ?thesis using noparse by (simp add: download_pdf_file_def)
    next
      case (Inr path)
      show ?thesis
      proof (cases "sanitize_filename (basename path) = []")
        case True
        with m None Inr show ?thesis using noname by (simp add: download_pdf_file_def)
      next
        case False
        show ?thesis
        proof (cases "path_exists w1 (join dir (sanitize_filename (basename path)))")
          case True
          with m None Inr False show ?thesis
            using present by (simp add: download_pdf_file_def Let_def)
        next
          case no: False
          with m None Inr False show ?thesis
            using fetched[of path] by (simp add: download_pdf_file_def Let_def)
        qed
      qed
    qed
  qed
qed

lemma download_frame:
  "cwd (snd (download_pdf_file env url dir w)) = cwd w
   \<and> posts (snd (download_pdf_file env url dir w)) = posts w
   \<and> slept (snd (download_pdf_file env url dir w)) = slept w"
proof (cases rule: download_cases[of dir w env url])
  case (fetched path)
  let ?p = "join dir (sanitize_filename (basename path))"
  let ?w1 = "snd (makedirs dir w)"
  obtain r w2 where f: "fetch_and_save env url ?p ?w1 = (r, w2)"
    by (cases "fetch_and_save env url ?p ?w1")
  with fetch_and_save_frame[of env url ?p ?w1] makedirs_frame[of dir w]
  have "cwd w2 = cwd w \<and> posts w2 = posts w \<and> slept w2 = slept w" by simp
  with fetched(5) f show ?thesis by (auto split: option.splits)
qed (simp_all add: makedirs_frame)

lemma download_dirs:
  assumes "map_of (fs w) k = Some Dir"
  shows "map_of (fs (snd (download_pdf_file env url dir w))) k = Some Dir"
proof -
  let ?w1 = "snd (makedirs dir w)"
  have 1: "map_of (fs ?w1) k = Some Dir"
    using assms by (simp add: makedirs_def mkdir_chain_old)
  show ?thesis
  proof (cases rule: download_cases[of dir w env url])
    case (fetched path)
    let ?p = "join dir (sanitize_filename (basename path))"
    obtain r w2 where f: "fetch_and_save env url ?p ?w1 = (r, w2)"
      by (cases "fetch_and_save env url ?p ?w1")
    with fetch_and_save_dirs[OF 1, of env url ?p]
    have "map_of (fs w2) k = Some Dir" by simp
    with fetched(5) f show ?thesis by (auto split: option.splits)
  qed (simp_all add: 1)
qed

lemma path_exists_makedirs:
  assumes "path_exists w p"
  shows "path_exists (snd (makedirs dir w)) p" "lookup (snd (makedirs dir w)) p = lookup w p"
proof -
  from assms obtain n where n: "p \<noteq> []" "map_of (fs w) (abspath w p) = Some n"
    by (auto simp: path_exists_def lookup_def split: if_splits)
  have a: "abspath (snd (makedirs dir w)) p = abspath w p"
    using makedirs_frame[of dir w] by (intro abspath_cwd) simp
  have "map_of (fs (snd (makedirs dir w))) (abspath w p) = Some n"
    using n(2) by (simp add: makedirs_def mkdir_chain_old)
  with n a show "path_exists (snd (makedirs dir w)) p"
    "lookup (snd (makedirs dir w)) p = lookup w p"
    by (simp_all add: path_exists_def lookup_def)
qed

lemma download_returns_after_makedirs:
  "fst (download_pdf_file env url dir w) = None \<Longrightarrow> fst (makedirs dir w) = None"
  by (cases rule: download_cases[of dir w env url]) simp_all

lemma makedirs_again:
  assumes ok: "fst (makedirs dir w) = None"
    and cwd: "cwd w' = cwd w"
    and dirs: "\<And>k. map_of (fs (snd (makedirs dir w))) k = Some Dir \<Longrightarrow> map_of (fs w') k = Some Dir"
  shows "makedirs dir w' = (None, w')"
proof -
  from ok have d: "dir \<noteq> []" by (auto simp: makedirs_def split: if_splits)
  then have m: "makedirs dir w = mkdir_chain (dir_chain (abspath w dir)) w"
    by (simp add: makedirs_def)
  have a: "abspath w' dir = abspath w dir" using cwd by (rule abspath_cwd)
  have "map_of (fs w') p = Some Dir" if "p \<in> set (dir_chain (abspath w dir))" for p
    using mkdir_chain_dirs[OF ok[unfolded m] that] dirs by (simp add: m)
  then have "mkdir_chain (dir_chain (abspath w dir)) w' = (None, w')"
    by (rule mkdir_chain_noop)
  with d a show ?thesis by (simp add: makedirs_def)
qed

text \<open>After a download that logged its success, the file is there and the directory too.\<close>

lemma download_success_state:
  assumes r: "download_pdf_file env url dir w = (None, w')"
    and o: "out w' = out w @ [Success_Downloaded p]"
  shows "path_exists w' p \<and> makedirs dir w' = (None, w')"
proof -
  let ?w1 = "snd (makedirs dir w)"
  have ow1: "out ?w1 = out w" by (simp add: makedirs_frame)
  have ok: "fst (makedirs dir w) = None"
    using r download_returns_after_makedirs[of env url dir w] by simp
  have again: "makedirs dir w' = (None, w')"
  proof (rule makedirs_again[OF ok])
    show "cwd w' = cwd w" using download_frame[of env url dir w] r by simp
    show "map_of (fs w') k = Some Dir" if "map_of (fs ?w1) k = Some Dir" for k
    proof -
      have "map_of (fs w) k = Some Dir \<or> map_of (fs w) k = None"
        using that mkdir_chain_old[of w k _ "dir_chain (abspath w dir)"]
        by (cases "map_of (fs w) k") (auto simp: makedirs_def split: if_splits)
      show ?thesis
      proof (cases rule: download_cases[of dir w env url])
        case (fetched path)
        let ?p = "join dir (sanitize_filename (basename path))"
        obtain e w2 where f: "fetch_and_save env url ?p ?w1 = (e, w2)"
          by (cases "fetch_and_save env url ?p ?w1")
        have "map_of (fs w2) k = Some Dir"
          using fetch_and_save_dirs[OF that, of env url ?p] f by simp
        with fetched(5) f r show ?thesis by (auto split: option.splits if_splits)
      qed (use r that in auto)
    qed
  qed
  have "path_exists w' p"
  proof (cases rule: download_cases[of dir w env url])
    case (nodir e) with r show ?thesis by simp
  next
    case (noparse e) with r show ?thesis by simp
  next
    case (noname path) with r o ow1 show ?thesis by auto
  next
    case (present path) with r o ow1 show ?thesis by auto
  next
    case (fetched path)
    let ?p = "join dir (sanitize_filename (basename path))"
    let ?w1' = "?w1\<lparr>gets := gets ?w1 @ [url]\<rparr>"
    show ?thesis
    proof (cases rule: fetch_and_save_cases[of env ?w1 url ?p])
      case (raises e) with fetched(5) r o ow1 show ?thesis by (auto split: if_splits)
    next
      case (status st cs se) with fetched(5) r o ow1 show ?thesis by (auto split: if_splits)
    next
      case (noopen st cs se e) with fetched(5) r o ow1 show ?thesis by (auto split: if_splits)
    next
      case (cut st cs e w2)
      have "out w2 = out ?w1"
        using open_wb_frame[of ?p ?w1'] cut(3) by simp
      with cut fetched(5) r o ow1 show ?thesis
        by (auto simp: write_chunks_frame split: if_splits)
    next
      case (saved st cs w2)
      have w': "w' = print (Success_Downloaded ?p) (write_chunks ?p cs w2)"
        using saved(4) fetched(5) r by simp
      have "out w2 = out w" using open_wb_frame[of ?p ?w1'] saved(3) ow1 by simp
      with w' o have p: "p = ?p" by (simp add: write_chunks_frame)
      have ne: "?p \<noteq> []" using open_wb_nonempty[of ?p ?w1'] saved(3) by simp
      have "map_of (fs w2) (abspath ?w1' ?p) = Some (File [])"
        using open_wb_file[of ?p ?w1'] saved(3) by simp
      then obtain d where "map_of (fs (write_chunks ?p cs w2)) (abspath ?w1' ?p) = Some (File d)"
        using write_chunks_file by blast
      moreover have "abspath w' ?p = abspath ?w1' ?p"
        using open_wb_frame[of ?p ?w1'] saved(3)
        by (intro abspath_cwd) (simp add: w' write_chunks_frame)
      ultimately show ?thesis using ne by (simp add: p w' path_exists_def lookup_def)
    qed
  qed
  with again show ?thesis by simp
qed

subsection \<open>The examples, evaluated\<close>

lemmas sanitize_eval = sanitize_filename_def unquote_def splitext_def slice_def sub_nonword_def
  strip_underscores_def lower_def lower_char_def is_word_def is_alnum_def is_upper_ascii_def
  is_lower_ascii_def is_digit_def basename_def rfind_def decoded_base_name_def

lemmas example_eval = example_env_def example_world_def example_world_1_def
  example_world_2_def example_urlparse_path_def example_get_def example_post_def
  example_fitz_def

lemma example_sanitize:
  "sanitize_filename (S ''A.pdf'') = S ''a.pdf''"
  "sanitize_filename (S ''gone.pdf'') = S ''gone.pdf''"
  "sanitize_filename (S ''cut.pdf'') = S ''cut.pdf''"
  "sanitize_filename (S ''___.pdf'') = []"
  by (simp_all add: sanitize_eval)

lemma example_urlparse:
  "urlparse_path example_env (JString (S ''https://x/A.pdf'')) = Inr (S ''/A.pdf'')"
  "urlparse_path example_env (JString (S ''https://x/gone.pdf'')) = Inr (S ''/gone.pdf'')"
  "urlparse_path example_env (JString (S ''https://x/cut.pdf'')) = Inr (S ''/cut.pdf'')"
  "urlparse_path example_env (JString (S ''https://host/___.pdf'')) = Inr (S ''/___.pdf'')"
  "urlparse_path example_env (JInt 7) = Inl AttributeError"
  by (simp_all add: example_eval startswith_def)

lemma example_basename:
  "basename (S ''/A.pdf'') = S ''A.pdf''"
  "basename (S ''/gone.pdf'') = S ''gone.pdf''"
  "basename (S ''/cut.pdf'') = S ''cut.pdf''"
  "basename (S ''/___.pdf'') = S ''___.pdf''"
  by (simp_all add: basename_def rfind_def)

lemma example_join:
  "join (S ''./PDFs'') (S ''a.pdf'') = S ''./PDFs/a.pdf''"
  "join (S ''./PDFs'') (S ''gone.pdf'') = S ''./PDFs/gone.pdf''"
  "join (S ''./PDFs'') (S ''cut.pdf'') = S ''./PDFs/cut.pdf''"
  by (simp_all add: join_def startswith_def endswith_def)

lemma example_abspath:
  "cwd w = S ''/srv/job'' \<Longrightarrow> abspath w (S ''./PDFs'') = S ''/srv/job/PDFs''"
  "cwd w = S ''/srv/job'' \<Longrightarrow> abspath w (S ''./PDFs/a.pdf'') = S ''/srv/job/PDFs/a.pdf''"
  "cwd w = S ''/srv/job'' \<Longrightarrow> abspath w (S ''./PDFs/gone.pdf'') = S ''/srv/job/PDFs/gone.pdf''"
  "cwd w = S ''/srv/job'' \<Longrightarrow> abspath w (S ''./PDFs/cut.pdf'') = S ''/srv/job/PDFs/cut.pdf''"
  by (simp_all add: path_eval)

lemma example_dirname:
  "dirname (S ''/srv/job/PDFs/a.pdf'') = S ''/srv/job/PDFs''"
  "dirname (S ''/srv/job/PDFs/cut.pdf'') = S ''/srv/job/PDFs''"
  by (simp_all add: dirname_def rfind_def)

lemma example_dir_chain:
  "dir_chain (S ''/srv/job/PDFs'') = [S ''/'', S ''/srv'', S ''/srv/job'', S ''/srv/job/PDFs'']"
  by (simp add: dir_chain_def upt_rec)

lemma example_makedirs:
  "makedirs (S ''./PDFs'') example_world = (None, example_world_1)"
  "makedirs (S ''./PDFs'') example_world_1 = (None, example_world_1)"
  "makedirs (S ''./PDFs'') example_world_2 = (None, example_world_2)"
  by (simp_all add: makedirs_def example_abspath[simplified] example_dir_chain[simplified]
      example_world_def example_world_1_def example_world_2_def)

lemma example_get_A:
  "http_get example_env 0 (JString (S ''https://x/A.pdf''))
     = Response 200 [S ''%PDF-'', [], S ''1.7''] None"
  "http_get example_env 0 (JString (S ''https://x/gone.pdf'')) = Response 404 [S ''no''] None"
  "http_get example_env 0 (JString (S ''https://x/cut.pdf''))
     = Response 200 [S ''%PDF-''] (Some RequestException)"
  by (simp_all add: example_eval)

lemma example_download_A:
  "download_pdf_file example_env (JString (S ''https://x/A.pdf'')) (S ''./PDFs'') example_world
     = (None, example_world_2)"
proof -
  have 1: "\<not> path_exists example_world_1 (S ''./PDFs/a.pdf'')"
    by (simp add: path_exists_def lookup_def example_abspath[simplified] example_world_1_def
        example_world_def)
  have 2: "fetch_and_save example_env (JString (S ''https://x/A.pdf'')) (S ''./PDFs/a.pdf'')
             example_world_1 = (None, example_world_2)"
    by (simp add: fetch_and_save_def example_get_A[simplified] open_wb_def
        example_dirname[simplified] is_error_status_def file_write_def
        example_abspath[simplified] print_def example_world_def example_world_1_def
        example_world_2_def Let_def)
  show ?thesis
    using 1
    by (simp add: download_pdf_file_def example_makedirs[simplified]
        example_urlparse[simplified] example_basename[simplified] example_sanitize[simplified]
        example_join[simplified] 2[simplified] Let_def)
qed

text \<open>A stream that breaks after a successful status leaves what had been written.\<close>

lemma example_download_cut:
  "file_at (snd (download_pdf_file example_env (JString (S ''https://x/cut.pdf''))
                   (S ''./PDFs'') example_world)) (S ''/srv/job/PDFs/cut.pdf'')
     = Some (S ''%PDF-'')"
proof -
  have 1: "\<not> path_exists example_world_1 (S ''./PDFs/cut.pdf'')"
    by (simp add: path_exists_def lookup_def example_abspath[simplified] example_world_1_def
        example_world_def)
  have 2: "fetch_and_save example_env (JString (S ''https://x/cut.pdf'')) (S ''./PDFs/cut.pdf'')
             example_world_1
           = (Some RequestException,
              example_world_1
                \<lparr>fs := fs example_world_1 @ [(S ''/srv/job/PDFs/cut.pdf'', File (S ''%PDF-''))],
                 gets := [JString (S ''https://x/cut.pdf'')]\<rparr>)"
    by (simp add: fetch_and_save_def example_get_A[simplified] open_wb_def
        example_dirname[simplified] is_error_status_def file_write_def
        example_abspath[simplified] print_def example_world_def example_world_1_def Let_def)
  show ?thesis
    using 1
    by (simp add: download_pdf_file_def example_makedirs[simplified]
        example_urlparse[simplified] example_basename[simplified] example_sanitize[simplified]
        example_join[simplified] 2[simplified] Let_def)
       (simp add: file_at_def example_world_1_def example_world_def)
qed

subsection \<open>The claims about the downloader\<close>

text \<open>
  C3. When the decoded base name of a URL's file name has no letter or digit, the
  sanitizer returns the empty string (and only then: no other name stands in), and
  \<open>download_pdf_file\<close> issues no request and changes no file: beyond \<open>makedirs\<close> it only
  prints its warning.
\<close>

theorem empty_name_skips_download:
  assumes "urlparse_path env pdf_url = Inr path"
    and "list_all (\<lambda>c. \<not> is_alnum c) (decoded_base_name (basename path))"
  shows "(sanitize_filename f = []) = list_all (\<lambda>c. \<not> is_alnum c) (decoded_base_name f)
       \<and> sanitize_filename (basename path) = []
       \<and> gets (snd (download_pdf_file env pdf_url dir w)) = gets w
       \<and> file_at (snd (download_pdf_file env pdf_url dir w)) = file_at w
       \<and> download_pdf_file env pdf_url dir w
           = (fst (makedirs dir w),
              if fst (makedirs dir w) = None
              then print (Warning_Skipped_Invalid pdf_url (basename path)) (snd (makedirs dir w))
              else snd (makedirs dir w))"
proof -
  have e: "sanitize_filename (basename path) = []"
    using assms(2) by (simp only: sanitize_filename_empty_iff)
  have "gets (snd (download_pdf_file env pdf_url dir w)) = gets w
       \<and> file_at (snd (download_pdf_file env pdf_url dir w)) = file_at w
       \<and> download_pdf_file env pdf_url dir w
           = (fst (makedirs dir w),
              if fst (makedirs dir w) = None
              then print (Warning_Skipped_Invalid pdf_url (basename path)) (snd (makedirs dir w))
              else snd (makedirs dir w))"
  proof (cases rule: download_cases[of dir w env pdf_url])
    case (nodir e')
    then show ?thesis by (simp add: makedirs_frame makedirs_file_at)
  next
    case (noparse e')
    with assms(1) show ?thesis by simp
  next
    case (noname path')
    with assms(1) have "path' = path" by simp
    with noname show ?thesis
      using file_at_fs[of "print (Warning_Skipped_Invalid pdf_url (basename path)) (snd (makedirs dir w))"
                        "snd (makedirs dir w)"]
      by (simp add: makedirs_frame makedirs_file_at)
  next
    case (present path')
    with assms(1) e show ?thesis by simp
  next
    case (fetched path')
    with assms(1) e show ?thesis by simp
  qed
  moreover have "(sanitize_filename f = [])
                   = list_all (\<lambda>c. \<not> is_alnum c) (decoded_base_name f)"
    by (rule sanitize_filename_empty_iff)
  ultimately show ?thesis using e by blast
qed

theorem empty_name_skips_download_witness:
  "sanitize_filename (S ''___.pdf'') = []
   \<and> download_pdf_file example_env (JString (S ''https://host/___.pdf'')) (S ''./PDFs'')
        example_world
       = (None, print (Warning_Skipped_Invalid (JString (S ''https://host/___.pdf''))
                         (S ''___.pdf'')) example_world_1)
   \<and> gets (snd (download_pdf_file example_env (JString (S ''https://host/___.pdf''))
                   (S ''./PDFs'') example_world)) = []"
proof -
  let ?url = "JString (S ''https://host/___.pdf'')"
  have p: "urlparse_path example_env ?url = Inr (S ''/___.pdf'')"
    by (rule example_urlparse)
  have a: "list_all (\<lambda>c. \<not> is_alnum c) (decoded_base_name (basename (S ''/___.pdf'')))"
    by (simp add: sanitize_eval)
  have b: "basename (S ''/___.pdf'') = S ''___.pdf''" by (rule example_basename)
  have g: "gets example_world = []" by (simp add: example_world_def)
  note t = empty_name_skips_download [OF p a, of "[]" "S ''./PDFs''" example_world]
  from t have 1: "sanitize_filename (basename (S ''/___.pdf'')) = []" by blast
  from t have 2: "gets (snd (download_pdf_file example_env ?url (S ''./PDFs'') example_world))
                    = gets example_world" by blast
  from t have 3: "download_pdf_file example_env ?url (S ''./PDFs'') example_world
           = (fst (makedirs (S ''./PDFs'') example_world),
              if fst (makedirs (S ''./PDFs'') example_world) = None
              then print (Warning_Skipped_Invalid ?url (basename (S ''/___.pdf'')))
                     (snd (makedirs (S ''./PDFs'') example_world))
              else snd (makedirs (S ''./PDFs'') example_world))" by blast
  from 1 2 3 show ?thesis
    by (simp only: b g example_makedirs fst_conv snd_conv if_True simp_thms)
qed

text \<open>
  C9. The status is checked before the output file is opened: when the GET request
  raises or comes back with a status that \<open>raise_for_status\<close> rejects, no file is created
  or changed; the file system is as \<open>makedirs\<close> left it.
\<close>

theorem failed_request_creates_no_file:
  assumes "request_fails (http_get env (length (gets w)) pdf_url)"
  shows "file_at (snd (download_pdf_file env pdf_url dir w)) = file_at w
       \<and> fs (snd (download_pdf_file env pdf_url dir w)) = fs (snd (makedirs dir w))"
proof -
  let ?w1 = "snd (makedirs dir w)"
  have "fs (snd (download_pdf_file env pdf_url dir w)) = fs ?w1"
  proof (cases rule: download_cases[of dir w env pdf_url])
    case (fetched path)
    let ?p = "join dir (sanitize_filename (basename path))"
    have "request_fails (http_get env (length (gets ?w1)) pdf_url)"
      using assms by (simp add: makedirs_frame)
    from fetch_and_save_fails[OF this, of ?p]
    obtain e w2 where f: "fetch_and_save env pdf_url ?p ?w1 = (Some e, w2)" "fs w2 = fs ?w1"
      by (cases "fetch_and_save env pdf_url ?p ?w1") auto
    with fetched(5) show ?thesis by simp
  qed simp_all
  moreover from this have "file_at (snd (download_pdf_file env pdf_url dir w)) = file_at ?w1"
    by (rule file_at_fs)
  ultimately show ?thesis by (simp add: makedirs_file_at)
qed

theorem failed_request_creates_no_file_witness:
  "request_fails (http_get example_env (length (gets example_world))
                    (JString (S ''https://x/gone.pdf'')))
   \<and> fs (snd (download_pdf_file example_env (JString (S ''https://x/gone.pdf''))
                 (S ''./PDFs'') example_world)) = fs example_world_1
   \<and> file_at (snd (download_pdf_file example_env (JString (S ''https://x/gone.pdf''))
                 (S ''./PDFs'') example_world)) = file_at example_world"
proof -
  let ?url = "JString (S ''https://x/gone.pdf'')"
  have g: "length (gets example_world) = 0" by (simp add: example_world_def)
  have f: "request_fails (http_get example_env (length (gets example_world)) ?url)"
    unfolding g by (simp add: example_get_A[simplified] request_fails_def is_error_status_def)
  from failed_request_creates_no_file [OF f, of "S ''./PDFs''"] f show ?thesis
    by (simp only: example_makedirs snd_conv simp_thms)
qed

text \<open>
  C10. The directory is made first: whenever \<open>makedirs\<close> does not raise, and so whenever
  the call returns, the save directory exists afterwards, and a call that skips (no usable
  name, or a file already there) leaves the world as \<open>makedirs\<close> left it, plus its log line.
\<close>

theorem download_leaves_directory:
  assumes "fst (makedirs dir w) = None"
  shows "isdir (snd (download_pdf_file env pdf_url dir w)) dir
       \<and> isdir (snd (makedirs dir w)) dir
       \<and> (\<forall>path. urlparse_path env pdf_url = Inr path \<and> sanitize_filename (basename path) = []
            \<longrightarrow> download_pdf_file env pdf_url dir w
                 = (None, print (Warning_Skipped_Invalid pdf_url (basename path))
                            (snd (makedirs dir w))))
       \<and> (\<forall>path. urlparse_path env pdf_url = Inr path \<and> sanitize_filename (basename path) \<noteq> []
              \<and> path_exists (snd (makedirs dir w)) (join dir (sanitize_filename (basename path)))
            \<longrightarrow> download_pdf_file env pdf_url dir w
                 = (None, print (Info_Skipped_Exists (join dir (sanitize_filename (basename path))))
                            (snd (makedirs dir w))))"
proof -
  let ?w1 = "snd (makedirs dir w)"
  let ?w' = "snd (download_pdf_file env pdf_url dir w)"
  have 1: "isdir ?w1 dir" using assms by (rule makedirs_isdir)
  then have d: "dir \<noteq> []" "map_of (fs ?w1) (abspath ?w1 dir) = Some Dir"
    by (auto simp: isdir_def lookup_def split: if_splits)
  have a: "abspath ?w' dir = abspath ?w1 dir"
    using download_frame[of env pdf_url dir w] makedirs_frame[of dir w]
    by (intro abspath_cwd) simp
  have "map_of (fs ?w') (abspath ?w1 dir) = Some Dir"
  proof (cases rule: download_cases[of dir w env pdf_url])
    case (fetched path)
    let ?p = "join dir (sanitize_filename (basename path))"
    obtain e w2 where f: "fetch_and_save env pdf_url ?p ?w1 = (e, w2)"
      by (cases "fetch_and_save env pdf_url ?p ?w1")
    with fetch_and_save_dirs[OF d(2), of env pdf_url ?p]
    have "map_of (fs w2) (abspath ?w1 dir) = Some Dir" by simp
    with fetched(5) f show ?thesis by (auto split: option.splits)
  qed (simp_all add: d)
  with a d(1) have 2: "isdir ?w' dir" by (simp add: isdir_def lookup_def)
  have 3: "download_pdf_file env pdf_url dir w
             = (None, print (Warning_Skipped_Invalid pdf_url (basename path)) ?w1)"
    if "urlparse_path env pdf_url = Inr path" "sanitize_filename (basename path) = []" for path
    using that assms by (cases rule: download_cases[of dir w env pdf_url]) auto
  have 4: "download_pdf_file env pdf_url dir w
             = (None, print (Info_Skipped_Exists (join dir (sanitize_filename (basename path)))) ?w1)"
    if "urlparse_path env pdf_url = Inr path" "sanitize_filename (basename path) \<noteq> []"
       "path_exists ?w1 (join dir (sanitize_filename (basename path)))" for path
    using that assms by (cases rule: download_cases[of dir w env pdf_url]) auto
  from 1 2 3 4 show ?thesis by blast
qed

theorem download_leaves_directory_witness:
  "fst (makedirs (S ''./PDFs'') example_world) = None
   \<and> \<not> isdir example_world (S ''./PDFs'')
   \<and> isdir (snd (download_pdf_file example_env (JString (S ''https://host/___.pdf''))
                    (S ''./PDFs'') example_world)) (S ''./PDFs'')
   \<and> download_pdf_file example_env (JString (S ''https://host/___.pdf'')) (S ''./PDFs'')
        example_world
       = (None, print (Warning_Skipped_Invalid (JString (S ''https://host/___.pdf''))
                         (S ''___.pdf'')) example_world_1)
   \<and> download_pdf_file example_env (JString (S ''https://x/A.pdf'')) (S ''./PDFs'')
        example_world_2
       = (None, print (Info_Skipped_Exists (S ''./PDFs/a.pdf'')) example_world_2)"
proof -
  let ?url = "JString (S ''https://host/___.pdf'')"
  let ?A = "JString (S ''https://x/A.pdf'')"
  have m: "fst (makedirs (S ''./PDFs'') example_world) = None"
    by (simp only: example_makedirs fst_conv)
  have m2: "fst (makedirs (S ''./PDFs'') example_world_2) = None"
    by (simp only: example_makedirs fst_conv)
  have n: "\<not> isdir example_world (S ''./PDFs'')"
    by (simp add: isdir_def lookup_def example_abspath[simplified] example_world_def)
  have p: "urlparse_path example_env ?url = Inr (S ''/___.pdf'')"
    by (rule example_urlparse)
  have s: "sanitize_filename (basename (S ''/___.pdf'')) = []"
    by (simp only: example_basename example_sanitize)
  have pA: "urlparse_path example_env ?A = Inr (S ''/A.pdf'')"
    by (rule example_urlparse)
  have sA: "sanitize_filename (basename (S ''/A.pdf'')) = S ''a.pdf''"
    by (simp only: example_basename example_sanitize)
  have sA': "sanitize_filename (basename (S ''/A.pdf'')) \<noteq> []"
    unfolding sA by simp
  have eA: "path_exists (snd (makedirs (S ''./PDFs'') example_world_2))
              (join (S ''./PDFs'') (sanitize_filename (basename (S ''/A.pdf''))))"
    unfolding sA example_join example_makedirs snd_conv
    by (simp add: path_exists_def lookup_def example_abspath[simplified] example_world_2_def
        example_world_1_def example_world_def)
  note t = download_leaves_directory [OF m, of example_env ?url]
  note t2 = download_leaves_directory [OF m2, of example_env ?A]
  from t have 1: "isdir (snd (download_pdf_file example_env ?url (S ''./PDFs'') example_world))
                    (S ''./PDFs'')" by blast
  from t p s have 2: "download_pdf_file example_env ?url (S ''./PDFs'') example_world
      = (None, print (Warning_Skipped_Invalid ?url (basename (S ''/___.pdf'')))
                 (snd (makedirs (S ''./PDFs'') example_world)))" by blast
  from t2 pA sA' eA have 3: "download_pdf_file example_env ?A (S ''./PDFs'') example_world_2
      = (None, print (Info_Skipped_Exists
                        (join (S ''./PDFs'') (sanitize_filename (basename (S ''/A.pdf'')))))
                 (snd (makedirs (S ''./PDFs'') example_world_2)))" by blast
  from m n 1 2 3 show ?thesis
    by (simp only: example_makedirs example_basename example_sanitize example_join snd_conv
        simp_thms)
qed

text \<open>
  C4. When something already exists at the save path, \<open>download_pdf_file\<close> issues no
  request and leaves every file as it was, that one included; and once a download has
  succeeded, downloading the same URL again is such a skip.
\<close>

theorem existing_file_not_downloaded:
  assumes "urlparse_path env pdf_url = Inr path"
    and "sanitize_filename (basename path) \<noteq> []"
    and "save_path = join dir (sanitize_filename (basename path))"
  shows "(path_exists w save_path \<longrightarrow>
            gets (snd (download_pdf_file env pdf_url dir w)) = gets w
          \<and> file_at (snd (download_pdf_file env pdf_url dir w)) = file_at w
          \<and> lookup (snd (download_pdf_file env pdf_url dir w)) save_path = lookup w save_path
          \<and> download_pdf_file env pdf_url dir w
              = (fst (makedirs dir w),
                 if fst (makedirs dir w) = None
                 then print (Info_Skipped_Exists save_path) (snd (makedirs dir w))
                 else snd (makedirs dir w)))
       \<and> (\<forall>w1. download_pdf_file env pdf_url dir w = (None, w1)
                \<and> out w1 = out w @ [Success_Downloaded save_path]
             \<longrightarrow> download_pdf_file env pdf_url dir w1
                  = (None, print (Info_Skipped_Exists save_path) w1))"
proof -
  let ?w1 = "snd (makedirs dir w)"
  let ?r = "download_pdf_file env pdf_url dir w"
  have skip: "download_pdf_file env pdf_url dir v
               = (fst (makedirs dir v),
                  if fst (makedirs dir v) = None
                  then print (Info_Skipped_Exists save_path) (snd (makedirs dir v))
                  else snd (makedirs dir v))"
    if ex: "path_exists v save_path" for v
  proof -
    have ex1: "path_exists (snd (makedirs dir v)) save_path"
      using ex by (rule path_exists_makedirs)
    show ?thesis
    proof (cases rule: download_cases[of dir v env pdf_url])
      case (nodir e) then show ?thesis by simp
    next
      case (noparse e) with assms(1) show ?thesis by simp
    next
      case (noname path') with assms(1,2) show ?thesis by simp
    next
      case (present path') with assms(1,3) show ?thesis by simp
    next
      case (fetched path') with assms(1,3) ex1 show ?thesis by simp
    qed
  qed
  have part1: "gets (snd ?r) = gets w \<and> file_at (snd ?r) = file_at w
        \<and> lookup (snd ?r) save_path = lookup w save_path
        \<and> ?r = (fst (makedirs dir w),
                 if fst (makedirs dir w) = None
                 then print (Info_Skipped_Exists save_path) ?w1 else ?w1)"
    if ex: "path_exists w save_path"
  proof -
    note s = skip[OF ex]
    have l: "lookup ?w1 save_path = lookup w save_path"
      using ex by (rule path_exists_makedirs)
    have l': "lookup (print (Info_Skipped_Exists save_path) ?w1) save_path = lookup ?w1 save_path"
      by (simp add: lookup_def abspath_def)
    have f': "file_at (print (Info_Skipped_Exists save_path) ?w1) = file_at ?w1"
      by (rule file_at_fs) simp
    show ?thesis
      using s l l' f' by (simp add: makedirs_frame makedirs_file_at)
  qed
  have part2: "download_pdf_file env pdf_url dir w1
                  = (None, print (Info_Skipped_Exists save_path) w1)"
    if "?r = (None, w1)" "out w1 = out w @ [Success_Downloaded save_path]" for w1
  proof -
    from download_success_state[OF that]
    have ex: "path_exists w1 save_path" and m: "makedirs dir w1 = (None, w1)" by simp_all
    from skip[OF ex] m show ?thesis by simp
  qed
  from part1 part2 show ?thesis by blast
qed

theorem existing_file_not_downloaded_witness:
  "download_pdf_file example_env (JString (S ''https://x/A.pdf'')) (S ''./PDFs'') example_world
     = (None, example_world_2)
   \<and> download_pdf_file example_env (JString (S ''https://x/A.pdf'')) (S ''./PDFs'')
        example_world_2
       = (None, print (Info_Skipped_Exists (S ''./PDFs/a.pdf'')) example_world_2)
   \<and> path_exists example_world_2 (S ''./PDFs/a.pdf'')
   \<and> gets (snd (download_pdf_file example_env (JString (S ''https://x/A.pdf'')) (S ''./PDFs'')
                   example_world_2)) = gets example_world_2
   \<and> download_all example_env [JString (S ''https://x/A.pdf''), JString (S ''https://x/A.pdf'')]
        example_world
       = print (Info_Skipped_Exists (S ''./PDFs/a.pdf'')) example_world_2"
proof -
  let ?A = "JString (S ''https://x/A.pdf'')"
  have pA: "urlparse_path example_env ?A = Inr (S ''/A.pdf'')"
    by (rule example_urlparse)
  have sA: "sanitize_filename (basename (S ''/A.pdf'')) = S ''a.pdf''"
    by (simp only: example_basename example_sanitize)
  have sA': "sanitize_filename (basename (S ''/A.pdf'')) \<noteq> []"
    unfolding sA by simp
  have j: "S ''./PDFs/a.pdf'' = join (S ''./PDFs'') (sanitize_filename (basename (S ''/A.pdf'')))"
    by (simp only: sA example_join)
  have o: "out example_world_2 = out example_world @ [Success_Downloaded (S ''./PDFs/a.pdf'')]"
    by (simp add: example_world_2_def example_world_1_def example_world_def)
  have ex: "path_exists example_world_2 (S ''./PDFs/a.pdf'')"
    by (simp add: path_exists_def lookup_def example_abspath[simplified] example_world_2_def
        example_world_1_def example_world_def)
  note first = example_download_A
  from existing_file_not_downloaded [OF pA sA' j, of example_world] first o
  have second: "download_pdf_file example_env ?A (S ''./PDFs'') example_world_2
                  = (None, print (Info_Skipped_Exists (S ''./PDFs/a.pdf'')) example_world_2)"
    by blast
  from existing_file_not_downloaded [OF pA sA' j, of example_world_2] ex
  have g: "gets (snd (download_pdf_file example_env ?A (S ''./PDFs'') example_world_2))
             = gets example_world_2" by blast
  have all: "download_all example_env [?A, ?A] example_world
               = print (Info_Skipped_Exists (S ''./PDFs/a.pdf'')) example_world_2"
    by (simp add: pdf_download_directory_def first[simplified] second[simplified])
  from first second ex g all show ?thesis by blast
qed

section \<open>Properties of the main program\<close>

















subsection \<open>The validation loop\<close>

lemma validate_files_step:
  "validate_files env (p # ps) w =
     (case remove_if_invalid env p w of
        (Some e, w1) \<Rightarrow> (Some e, w1)
      | (None, w1) \<Rightarrow>
          validate_files env ps
            (if contains_uppercase env (get_filename_from_path p)
             then print (Notice_Uppercase p) w1 else w1))"
  by (simp add: remove_if_invalid_def split: prod.splits)

lemma remove_invalid_files_step:
  "remove_invalid_files env (p # ps) w =
     (case remove_if_invalid env p w of
        (Some e, w1) \<Rightarrow> (Some e, w1)
      | (None, w1) \<Rightarrow> remove_invalid_files env ps w1)"
  by (simp add: remove_if_invalid_def split: prod.splits)

lemma is_valid_pdf_opens: "fst (is_valid_pdf env p w) = opens_with_pages env p w"
  by (simp add: is_valid_pdf_def opens_with_pages_def split: fitz_result.splits)

lemma is_valid_pdf_world:
  "snd (is_valid_pdf env p w)
     = (case fitz_open_path env p w of
          Opened n \<Rightarrow> if n = 0 then print (Error_No_Pages p) w else w
        | OpenFails \<Rightarrow> print (Error_Corrupted p) w)"
  by (simp add: is_valid_pdf_def split: fitz_result.splits)

text \<open>What the first statement does to a listed file: it stays, or it goes.\<close>

lemma remove_if_invalid_file:
  assumes "p \<noteq> []" "abspath w p = p" "map_of (fs w) p = Some (File c)"
  obtains w1 where "remove_if_invalid env p w = (None, w1)"
    "cwd w1 = cwd w" "gets w1 = gets w" "posts w1 = posts w" "slept w1 = slept w"
    "opens_with_pages env p w \<Longrightarrow> w1 = w"
    "\<not> opens_with_pages env p w \<Longrightarrow> fs w1 = AList.delete p (fs w)"
    "\<not> opens_with_pages env p w \<Longrightarrow> Warning_Removing p \<in> set (out w1)"
    "set (out w) \<subseteq> set (out w1)"
proof (cases "opens_with_pages env p w")
  case True
  then have "remove_if_invalid env p w = (None, w)"
    by (auto simp: remove_if_invalid_def is_valid_pdf_def opens_with_pages_def
        split: fitz_result.splits)
  with True show ?thesis using that[of w] by simp
next
  case False
  define w0 where "w0 = snd (is_valid_pdf env p w)"
  have v: "is_valid_pdf env p w = (False, w0)"
    using False is_valid_pdf_opens[of env p w] by (cases "is_valid_pdf env p w") (simp add: w0_def)
  have f0: "cwd w0 = cwd w" "fs w0 = fs w" "gets w0 = gets w" "posts w0 = posts w"
    "slept w0 = slept w" "set (out w) \<subseteq> set (out w0)"
    unfolding w0_def is_valid_pdf_world
    by (auto split: fitz_result.splits)
  let ?w1 = "print (Warning_Removing p) w0"
  have a: "abspath ?w1 p = p" using assms(2) f0(1) abspath_cwd[of ?w1 w p] by simp
  have l: "lookup ?w1 p = Some (File c)"
    using assms(1,3) a f0(2) by (simp add: lookup_def)
  then have d: "delete_file p ?w1 = (None, ?w1\<lparr>fs := AList.delete p (fs w)\<rparr>)"
    using a f0(2) by (simp add: delete_file_def path_exists_def os_remove_def)
  have r: "remove_if_invalid env p w = (None, ?w1\<lparr>fs := AList.delete p (fs w)\<rparr>)"
    by (simp add: remove_if_invalid_def v d)
  show ?thesis
    using that[OF r] f0 False by auto
qed

lemma opens_with_pages_eq:
  "cwd w' = cwd w \<Longrightarrow> map_of (fs w') (abspath w p) = map_of (fs w) (abspath w p)
   \<Longrightarrow> opens_with_pages env p w' = opens_with_pages env p w"
  using abspath_cwd[of w' w p]
  by (simp add: opens_with_pages_def fitz_open_path_def lookup_def)

lemma validate_files_listed:
  assumes "listed w ps"
  shows "fst (validate_files env ps w) = None
       \<and> cwd (snd (validate_files env ps w)) = cwd w
       \<and> gets (snd (validate_files env ps w)) = gets w
       \<and> posts (snd (validate_files env ps w)) = posts w
       \<and> slept (snd (validate_files env ps w)) = slept w
       \<and> set (out w) \<subseteq> set (out (snd (validate_files env ps w)))
       \<and> (\<forall>k. k \<notin> set ps \<longrightarrow>
             map_of (fs (snd (validate_files env ps w))) k = map_of (fs w) k)
       \<and> (\<forall>p \<in> set ps.
             if opens_with_pages env p w
             then map_of (fs (snd (validate_files env ps w))) p = map_of (fs w) p
             else map_of (fs (snd (validate_files env ps w))) p = None
                  \<and> Warning_Removing p \<in> set (out (snd (validate_files env ps w))))
       \<and> (distinct (map fst (fs w))
            \<longrightarrow> distinct (map fst (fs (snd (validate_files env ps w)))))"
  using assms
proof (induction ps arbitrary: w)
  case Nil
  then show ?case by simp
next
  case (Cons p ps)
  from Cons.prems obtain c where p: "p \<noteq> []" "abspath w p = p" "map_of (fs w) p = Some (File c)"
    and pn: "p \<notin> set ps" and rest: "listed w ps"
    by (auto simp: listed_def)
  from remove_if_invalid_file[OF p, of env]
  obtain w1 where w1: "remove_if_invalid env p w = (None, w1)"
    "cwd w1 = cwd w" "gets w1 = gets w" "posts w1 = posts w" "slept w1 = slept w"
    "opens_with_pages env p w \<Longrightarrow> w1 = w"
    "\<not> opens_with_pages env p w \<Longrightarrow> fs w1 = AList.delete p (fs w)"
    "\<not> opens_with_pages env p w \<Longrightarrow> Warning_Removing p \<in> set (out w1)"
    "set (out w) \<subseteq> set (out w1)"
    by metis
  define w2 where "w2 = (if contains_uppercase env (get_filename_from_path p)
                         then print (Notice_Uppercase p) w1 else w1)"
  have w2: "cwd w2 = cwd w" "fs w2 = fs w1" "gets w2 = gets w" "posts w2 = posts w"
    "slept w2 = slept w" "set (out w1) \<subseteq> set (out w2)"
    using w1(2-5) by (auto simp: w2_def)
  have step: "validate_files env (p # ps) w = validate_files env ps w2"
    by (simp only: validate_files_step w1(1) w2_def) simp
  have fs2: "map_of (fs w2) = (if opens_with_pages env p w then map_of (fs w)
                               else (map_of (fs w))(p := None))"
    using w1(6,7) w2(2) by (auto simp: delete_conv')
  have other: "map_of (fs w2) k = map_of (fs w) k" if "k \<noteq> p" for k
    using fs2 that by (auto split: if_splits)
  have l2: "listed w2 ps"
    unfolding listed_def
  proof (intro conjI ballI)
    show "distinct ps" using rest by (simp add: listed_def)
    fix q assume q: "q \<in> set ps"
    with rest obtain d where d: "q \<noteq> []" "abspath w q = q" "map_of (fs w) q = Some (File d)"
      by (auto simp: listed_def)
    from q pn have "q \<noteq> p" by auto
    then have "map_of (fs w2) q = Some (File d)" using other d(3) by simp
    then show "\<exists>c. map_of (fs w2) q = Some (File c)" by blast
    show "q \<noteq> []" by (rule d(1))
    show "abspath w2 q = q" using d(2) abspath_cwd[OF w2(1), of q] by simp
  qed
  note IH = Cons.IH[OF l2]
  let ?w' = "snd (validate_files env ps w2)"
  have ow: "opens_with_pages env q w2 = opens_with_pages env q w" if "q \<in> set ps" for q
  proof -
    from that rest have a: "abspath w q = q" by (auto simp: listed_def)
    from that pn have "q \<noteq> p" by auto
    with other a have "map_of (fs w2) (abspath w q) = map_of (fs w) (abspath w q)" by simp
    with w2(1) show ?thesis by (rule opens_with_pages_eq)
  qed
  have headp: "map_of (fs ?w') p = map_of (fs w2) p" using IH pn by blast
  have d2: "distinct (map fst (fs w)) \<Longrightarrow> distinct (map fst (fs w2))"
    using w1(6,7) w2(2) by (cases "opens_with_pages env p w") (auto simp: distinct_delete)
  show ?case
    unfolding step
  proof (intro conjI allI ballI impI)
    show "fst (validate_files env ps w2) = None" using IH by blast
    show "cwd ?w' = cwd w" using IH w2 by simp
    show "gets ?w' = gets w" using IH w2 by simp
    show "posts ?w' = posts w" using IH w2 by simp
    show "slept ?w' = slept w" using IH w2 by simp
    show "set (out w) \<subseteq> set (out ?w')" using IH w1(9) w2(6) by blast
    show "map_of (fs ?w') k = map_of (fs w) k" if "k \<notin> set (p # ps)" for k
      using that IH other by auto
    show "if opens_with_pages env q w then map_of (fs ?w') q = map_of (fs w) q
          else map_of (fs ?w') q = None \<and> Warning_Removing q \<in> set (out ?w')"
      if "q \<in> set (p # ps)" for q
    proof (cases "q = p")
      case True
      have "Warning_Removing p \<in> set (out ?w')" if "\<not> opens_with_pages env p w"
        using w1(8)[OF that] w2(6) IH by blast
      with True headp fs2 show ?thesis by auto
    next
      case False
      with that have q: "q \<in> set ps" by simp
      with IH have "if opens_with_pages env q w2 then map_of (fs ?w') q = map_of (fs w2) q
          else map_of (fs ?w') q = None \<and> Warning_Removing q \<in> set (out ?w')" by blast
      with ow[OF q] other[OF False] show ?thesis by simp
    qed
    show "distinct (map fst (fs ?w'))" if "distinct (map fst (fs w))"
      using IH d2[OF that] by blast
  qed
qed

lemma list_files_listed:
  assumes "wf_fs w"
  shows "listed w (list_files_with_extension dir ext w)"
proof (cases "isdir w dir")
  case False
  then show ?thesis by (simp add: list_files_with_extension_def listed_def)
next
  case True
  let ?P = "\<lambda>(k, n). n \<noteq> Dir \<and> is_under (abspath w dir) k \<and> endswith (basename k) ext"
  have l: "list_files_with_extension dir ext w = map fst (filter ?P (fs w))"
    using True by (simp add: list_files_with_extension_def)
  from assms have d: "distinct (map fst (fs w))"
    and c: "\<And>k. k \<in> fst ` set (fs w) \<Longrightarrow> k \<noteq> [] \<and> abspath w k = k"
    by (auto simp: wf_fs_def list_all_iff)
  have "distinct (map fst (filter ?P (fs w)))" using d by (rule distinct_map_filter)
  moreover have "p \<noteq> [] \<and> abspath w p = p \<and> (\<exists>c. map_of (fs w) p = Some (File c))"
    if "p \<in> set (map fst (filter ?P (fs w)))" for p
  proof -
    from that obtain n where n: "(p, n) \<in> set (fs w)" "n \<noteq> Dir" by auto
    then obtain c' where "n = File c'" by (cases n) auto
    with n d have "map_of (fs w) p = Some (File c')" by (simp add: map_of_is_SomeI)
    moreover from n have "p \<in> fst ` set (fs w)" by force
    ultimately show ?thesis using c by blast
  qed
  ultimately show ?thesis unfolding l listed_def by blast
qed

text \<open>
  C6. From a well-formed file system, the validation loop runs to its end; a listed file
  that \<open>is_valid_pdf\<close> accepts, which is one that opens with at least one page, is
  left as it was, and any other listed file is reported and removed; so every file the
  same listing finds afterwards opens with at least one page.
\<close>

theorem validation_keeps_valid_pdfs:
  assumes "wf_fs w"
    and "pdf_files = list_files_with_extension dir ext w"
    and "w' = snd (validate_files env pdf_files w)"
  shows "fst (validate_files env pdf_files w) = None
       \<and> fst (is_valid_pdf env f w) = opens_with_pages env f w
       \<and> list_all (\<lambda>p. if fst (is_valid_pdf env p w)
                        then lookup w' p = lookup w p
                        else lookup w' p = None \<and> Warning_Removing p \<in> set (out w'))
           pdf_files
       \<and> list_all (\<lambda>p. opens_with_pages env p w') (list_files_with_extension dir ext w')"
proof -
  have li: "listed w pdf_files" unfolding assms(2) using assms(1) by (rule list_files_listed)
  note inv = validate_files_listed[OF li, of env, folded assms(3)]
  from inv have cw: "cwd w' = cwd w" by blast
  from assms(1) inv have dw': "distinct (map fst (fs w'))" by (simp add: wf_fs_def)
  have ab: "abspath w' p = abspath w p" for p using cw by (rule abspath_cwd)
  have per: "if opens_with_pages env p w then map_of (fs w') p = map_of (fs w) p
             else map_of (fs w') p = None \<and> Warning_Removing p \<in> set (out w')"
    if "p \<in> set pdf_files" for p
    using inv that by blast
  have self: "p \<noteq> [] \<and> abspath w p = p \<and> (\<exists>c. map_of (fs w) p = Some (File c))"
    if "p \<in> set pdf_files" for p
    using li that by (auto simp: listed_def)
  have 3: "list_all (\<lambda>p. if fst (is_valid_pdf env p w)
                        then lookup w' p = lookup w p
                        else lookup w' p = None \<and> Warning_Removing p \<in> set (out w'))
           pdf_files"
    unfolding list_all_iff
  proof
    fix p assume p: "p \<in> set pdf_files"
    from self[OF p] have "lookup w' p = map_of (fs w') p" "lookup w p = map_of (fs w) p"
      by (simp_all add: lookup_def ab)
    with per[OF p] show "if fst (is_valid_pdf env p w)
                        then lookup w' p = lookup w p
                        else lookup w' p = None \<and> Warning_Removing p \<in> set (out w')"
      by (simp add: is_valid_pdf_opens)
  qed
  have 4: "list_all (\<lambda>p. opens_with_pages env p w') (list_files_with_extension dir ext w')"
  proof (cases "isdir w' dir")
    case False
    then show ?thesis by (simp add: list_files_with_extension_def)
  next
    case True
    then have dne: "dir \<noteq> []" and dk: "map_of (fs w') (abspath w dir) = Some Dir"
      by (auto simp: isdir_def lookup_def ab split: if_splits)
    have "abspath w dir \<notin> set pdf_files"
    proof
      assume m: "abspath w dir \<in> set pdf_files"
      from self[OF m] per[OF m] dk show False by (auto split: if_splits)
    qed
    with inv have "map_of (fs w) (abspath w dir) = map_of (fs w') (abspath w dir)" by simp
    with dk dne have dw: "isdir w dir" by (simp add: isdir_def lookup_def)
    show ?thesis
      unfolding list_all_iff
    proof
      fix q assume "q \<in> set (list_files_with_extension dir ext w')"
      with True obtain n where n: "(q, n) \<in> set (fs w')" "n \<noteq> Dir"
        "is_under (abspath w dir) q" "endswith (basename q) ext"
        by (auto simp: list_files_with_extension_def ab)
      then obtain c where c: "n = File c" by (cases n) auto
      with n dw' have q': "map_of (fs w') q = Some (File c)" by (simp add: map_of_is_SomeI)
      have mem: "q \<in> set pdf_files"
      proof (rule ccontr)
        assume no: "q \<notin> set pdf_files"
        with inv have "map_of (fs w) q = map_of (fs w') q" by simp
        with q' have "(q, File c) \<in> set (fs w)" by (simp add: map_of_SomeD)
        with n c dw have "q \<in> set (list_files_with_extension dir ext w)"
          by (force simp: list_files_with_extension_def)
        with no assms(2) show False by simp
      qed
      from per[OF mem] q' have o: "opens_with_pages env q w"
        and same: "map_of (fs w') q = map_of (fs w) q"
        by (auto split: if_splits)
      from self[OF mem] have "abspath w q = q" by blast
      with same have "map_of (fs w') (abspath w q) = map_of (fs w) (abspath w q)" by simp
      with cw have "opens_with_pages env q w' = opens_with_pages env q w"
        by (rule opens_with_pages_eq)
      with o show "opens_with_pages env q w'" by simp
    qed
  qed
  have 1: "fst (validate_files env pdf_files w) = None" using inv by blast
  have 2: "fst (is_valid_pdf env f w) = opens_with_pages env f w" by (rule is_valid_pdf_opens)
  from 1 2 3 4 show ?thesis by blast
qed


subsection \<open>The uppercase check\<close>

lemma delete_file_cases:
  "delete_file p w =
     (case lookup w p of
        None \<Rightarrow> (None, w)
      | Some (File c) \<Rightarrow> (None, w\<lparr>fs := AList.delete (abspath w p) (fs w)\<rparr>)
      | Some Dir \<Rightarrow> (Some OSError, w))"
  by (simp add: delete_file_def path_exists_def os_remove_def split: option.splits node.splits)

lemma delete_file_same:
  assumes "same_but_out w1 w2"
  shows "fst (delete_file p w1) = fst (delete_file p w2)
       \<and> same_but_out (snd (delete_file p w1)) (snd (delete_file p w2))
       \<and> out (snd (delete_file p w1)) = out w1 \<and> out (snd (delete_file p w2)) = out w2"
proof -
  from assms have c: "cwd w1 = cwd w2" and f: "fs w1 = fs w2" by (simp_all add: same_but_out_def)
  have a: "abspath w1 p = abspath w2 p" using c by (rule abspath_cwd)
  then have l: "lookup w1 p = lookup w2 p" using f by (simp add: lookup_def)
  show ?thesis
    using assms a f unfolding delete_file_cases l
    by (auto simp: same_but_out_def split: option.splits node.splits)
qed

lemma remove_if_invalid_cases:
  "remove_if_invalid env p w =
     (case fitz_open_path env p w of
        Opened n \<Rightarrow>
          if n = 0
          then delete_file p (print (Warning_Removing p) (print (Error_No_Pages p) w))
          else (None, w)
      | OpenFails \<Rightarrow> delete_file p (print (Warning_Removing p) (print (Error_Corrupted p) w)))"
  by (simp add: remove_if_invalid_def is_valid_pdf_def split: fitz_result.splits)

lemma same_but_out_print: "same_but_out w1 w2 \<Longrightarrow> same_but_out (print a w1) (print b w2)"
  by (simp add: same_but_out_def)

lemma remove_if_invalid_same:
  assumes "same_but_out w1 w2"
  shows "fst (remove_if_invalid env p w1) = fst (remove_if_invalid env p w2)
       \<and> same_but_out (snd (remove_if_invalid env p w1)) (snd (remove_if_invalid env p w2))
       \<and> (\<exists>X. out (snd (remove_if_invalid env p w1)) = out w1 @ X
              \<and> out (snd (remove_if_invalid env p w2)) = out w2 @ X
              \<and> filter is_notice X = [])"
proof -
  from assms have c: "cwd w1 = cwd w2" and f: "fs w1 = fs w2" by (simp_all add: same_but_out_def)
  have a: "abspath w1 p = abspath w2 p" using c by (rule abspath_cwd)
  then have o: "fitz_open_path env p w1 = fitz_open_path env p w2"
    using f by (simp add: fitz_open_path_def lookup_def)
  have del: "fst (delete_file p (print (Warning_Removing p) (print e w1)))
               = fst (delete_file p (print (Warning_Removing p) (print e w2)))
           \<and> same_but_out (snd (delete_file p (print (Warning_Removing p) (print e w1))))
                           (snd (delete_file p (print (Warning_Removing p) (print e w2))))
           \<and> out (snd (delete_file p (print (Warning_Removing p) (print e w1))))
               = out w1 @ [e, Warning_Removing p]
           \<and> out (snd (delete_file p (print (Warning_Removing p) (print e w2))))
               = out w2 @ [e, Warning_Removing p]" for e
    using delete_file_same[OF same_but_out_print[OF same_but_out_print[OF assms]],
        of p "Warning_Removing p" e "Warning_Removing p" e]
    by simp
  show ?thesis
  proof (cases "fitz_open_path env p w2")
    case (Opened n)
    show ?thesis
    proof (cases "n = 0")
      case True
      with Opened o del[of "Error_No_Pages p"] show ?thesis
        by (simp add: remove_if_invalid_cases)
    next
      case False
      with Opened o assms show ?thesis by (simp add: remove_if_invalid_cases)
    qed
  next
    case OpenFails
    with o del[of "Error_Corrupted p"] show ?thesis by (simp add: remove_if_invalid_cases)
  qed
qed

lemma validate_files_lockstep:
  assumes "same_but_out w1 w2"
  shows "fst (validate_files env ps w1) = fst (remove_invalid_files env ps w2)
       \<and> same_but_out (snd (validate_files env ps w1)) (snd (remove_invalid_files env ps w2))
       \<and> (\<exists>X. out (snd (remove_invalid_files env ps w2)) = out w2 @ X
              \<and> filter (\<lambda>l. \<not> is_notice l) (out (snd (validate_files env ps w1)))
                  = filter (\<lambda>l. \<not> is_notice l) (out w1) @ X)"
  using assms
proof (induction ps arbitrary: w1 w2)
  case Nil
  then show ?case by simp
next
  case (Cons p ps)
  obtain r1 v1 where r1: "remove_if_invalid env p w1 = (r1, v1)"
    by (cases "remove_if_invalid env p w1")
  obtain r2 v2 where r2: "remove_if_invalid env p w2 = (r2, v2)"
    by (cases "remove_if_invalid env p w2")
  from remove_if_invalid_same[OF Cons.prems, of env p] r1 r2
  obtain X where s: "r1 = r2" "same_but_out v1 v2" "out v1 = out w1 @ X" "out v2 = out w2 @ X"
    "filter is_notice X = []" by auto
  from s(5) have nn: "filter (\<lambda>l. \<not> is_notice l) X = X"
    by (simp add: filter_empty_conv)
  show ?case
  proof (cases r2)
    case (Some e)
    with r1 r2 s nn show ?thesis
      by (simp add: validate_files_step remove_invalid_files_step
          del: validate_files.simps remove_invalid_files.simps)
  next
    case None
    define u1 where "u1 = (if contains_uppercase env (get_filename_from_path p)
                           then print (Notice_Uppercase p) v1 else v1)"
    have u: "same_but_out u1 v2"
      "filter (\<lambda>l. \<not> is_notice l) (out u1) = filter (\<lambda>l. \<not> is_notice l) (out w1) @ X"
      using s nn by (auto simp: u1_def same_but_out_def)
    from Cons.IH[OF u(1)] obtain Y where
      y: "fst (validate_files env ps u1) = fst (remove_invalid_files env ps v2)"
         "same_but_out (snd (validate_files env ps u1)) (snd (remove_invalid_files env ps v2))"
         "out (snd (remove_invalid_files env ps v2)) = out v2 @ Y"
         "filter (\<lambda>l. \<not> is_notice l) (out (snd (validate_files env ps u1)))
            = filter (\<lambda>l. \<not> is_notice l) (out u1) @ Y"
      by blast
    have st: "validate_files env (p # ps) w1 = validate_files env ps u1"
      "remove_invalid_files env (p # ps) w2 = remove_invalid_files env ps v2"
      using r1 r2 None s(1) by (simp_all add: validate_files_step remove_invalid_files_step u1_def
          del: validate_files.simps remove_invalid_files.simps)
    show ?thesis
      unfolding st using y u(2) s(4) by (intro conjI exI[of _ "X @ Y"]) simp_all
  qed
qed

lemma validate_files_notices:
  assumes "fst (validate_files env ps w) = None"
  shows "filter is_notice (out (snd (validate_files env ps w)))
           = filter is_notice (out w)
             @ map Notice_Uppercase
                 (filter (\<lambda>p. contains_uppercase env (get_filename_from_path p)) ps)"
  using assms
proof (induction ps arbitrary: w)
  case Nil
  then show ?case by simp
next
  case (Cons p ps)
  obtain r v where r: "remove_if_invalid env p w = (r, v)"
    by (cases "remove_if_invalid env p w")
  have same: "same_but_out w w" by (simp add: same_but_out_def)
  from remove_if_invalid_same[OF same, of env p] r
  obtain X where x: "out v = out w @ X" "filter is_notice X = []" by auto
  from Cons.prems r have none: "r = None"
    by (cases r) (simp_all add: validate_files_step del: validate_files.simps)
  define u where "u = (if contains_uppercase env (get_filename_from_path p)
                       then print (Notice_Uppercase p) v else v)"
  have st: "validate_files env (p # ps) w = validate_files env ps u"
    using r none by (simp add: validate_files_step u_def del: validate_files.simps)
  with Cons.prems have "fst (validate_files env ps u) = None" by simp
  from Cons.IH[OF this] x show ?case
    unfolding st by (simp add: u_def)
qed

text \<open>
  C7, as the code has it. The uppercase check is applied to every listed file, whether it
  was kept or has just been removed: when the loop runs to its end, the NOTICE lines are
  those of the listed files with an uppercase character in their name, in order. The
  check does nothing but print: the loop without it ends the same way, in a world that
  differs only in the log, and the two logs differ only in the NOTICE lines.
\<close>

theorem uppercase_notice_for_every_listed_file:
  assumes "fst (validate_files env pdf_files w) = None"
  shows "filter is_notice (out (snd (validate_files env pdf_files w)))
           = filter is_notice (out w)
             @ map Notice_Uppercase
                 (filter (\<lambda>p. contains_uppercase env (get_filename_from_path p)) pdf_files)
       \<and> fst (remove_invalid_files env pdf_files w) = None
       \<and> same_but_out (snd (validate_files env pdf_files w))
                      (snd (remove_invalid_files env pdf_files w))
       \<and> filter (\<lambda>l. \<not> is_notice l) (out (snd (validate_files env pdf_files w)))
           = filter (\<lambda>l. \<not> is_notice l) (out w)
             @ drop (length (out w)) (out (snd (remove_invalid_files env pdf_files w)))"
proof -
  have same: "same_but_out w w" by (simp add: same_but_out_def)
  from validate_files_lockstep[OF same, of env pdf_files]
  obtain X where x: "fst (validate_files env pdf_files w) = fst (remove_invalid_files env pdf_files w)"
    "same_but_out (snd (validate_files env pdf_files w)) (snd (remove_invalid_files env pdf_files w))"
    "out (snd (remove_invalid_files env pdf_files w)) = out w @ X"
    "filter (\<lambda>l. \<not> is_notice l) (out (snd (validate_files env pdf_files w)))
       = filter (\<lambda>l. \<not> is_notice l) (out w) @ X"
    by blast
  from x(3) have "drop (length (out w)) (out (snd (remove_invalid_files env pdf_files w))) = X"
    by simp
  with x assms validate_files_notices[OF assms] show ?thesis by simp
qed

subsection \<open>The whole run\<close>



subsection \<open>The validation of the example world\<close>

lemma example_normpath:
  "normpath (S ''/'') = S ''/''"
  "normpath (S ''/srv'') = S ''/srv''"
  "normpath (S ''/srv/job'') = S ''/srv/job''"
  "normpath (S ''/srv/job/PDFs'') = S ''/srv/job/PDFs''"
  "normpath (S ''/srv/job/PDFs/a.pdf'') = S ''/srv/job/PDFs/a.pdf''"
  "normpath (S ''/srv/job/PDFs/Bad.pdf'') = S ''/srv/job/PDFs/Bad.pdf''"
  "normpath (S ''/srv/job/PDFs/old'') = S ''/srv/job/PDFs/old''"
  "normpath (S ''/srv/job/PDFs/old/zero.pdf'') = S ''/srv/job/PDFs/old/zero.pdf''"
  "normpath (S ''/srv/job/PDFs/notes.txt'') = S ''/srv/job/PDFs/notes.txt''"
  by (simp_all add: normpath_def startswith_def)

lemma example_abspath_abs:
  "abspath w (S ''/srv/job/PDFs/a.pdf'') = S ''/srv/job/PDFs/a.pdf''"
  "abspath w (S ''/srv/job/PDFs/Bad.pdf'') = S ''/srv/job/PDFs/Bad.pdf''"
  "abspath w (S ''/srv/job/PDFs/old/zero.pdf'') = S ''/srv/job/PDFs/old/zero.pdf''"
  by (simp_all add: abspath_def isabs_def startswith_def example_normpath[simplified])

lemma example_wf: "wf_fs example_world_3"
  by (simp add: wf_fs_def example_world_3_def example_world_1_def example_world_def
      abspath_def isabs_def startswith_def example_normpath[simplified])

lemma example_list_files:
  "list_files_with_extension (S ''./PDFs'') (S ''.pdf'') example_world_3
     = [S ''/srv/job/PDFs/a.pdf'', S ''/srv/job/PDFs/Bad.pdf'',
        S ''/srv/job/PDFs/old/zero.pdf'']"
  by (simp add: list_files_with_extension_def isdir_def lookup_def example_abspath[simplified]
      example_world_3_def example_world_1_def example_world_def is_under_def endswith_def
      startswith_def basename_def rfind_def)

lemma example_validate:
  "validate_files example_env
     [S ''/srv/job/PDFs/a.pdf'', S ''/srv/job/PDFs/Bad.pdf'', S ''/srv/job/PDFs/old/zero.pdf'']
     example_world_3
   = (None, example_world_4)"
  by (simp add: is_valid_pdf_def fitz_open_path_def lookup_def example_abspath_abs[simplified]
      example_env_def example_fitz_def startswith_def delete_file_def path_exists_def
      os_remove_def contains_uppercase_def isupper_def is_upper_ascii_def
      get_filename_from_path_def basename_def rfind_def print_def
      example_world_4_def example_world_3_def example_world_1_def example_world_def)

subsection \<open>The claims about the validator and the main program, at the example\<close>

theorem validation_keeps_valid_pdfs_witness:
  "wf_fs example_world_3
   \<and> validate_files example_env
        (list_files_with_extension (S ''./PDFs'') (S ''.pdf'') example_world_3) example_world_3
       = (None, example_world_4)
   \<and> lookup example_world_4 (S ''/srv/job/PDFs/a.pdf'')
       = lookup example_world_3 (S ''/srv/job/PDFs/a.pdf'')
   \<and> lookup example_world_4 (S ''/srv/job/PDFs/Bad.pdf'') = None
   \<and> lookup example_world_4 (S ''/srv/job/PDFs/old/zero.pdf'') = None
   \<and> list_files_with_extension (S ''./PDFs'') (S ''.pdf'') example_world_4
       = [S ''/srv/job/PDFs/a.pdf'']
   \<and> opens_with_pages example_env (S ''/srv/job/PDFs/a.pdf'') example_world_4"
proof -
  let ?a = "S ''/srv/job/PDFs/a.pdf''"
  let ?b = "S ''/srv/job/PDFs/Bad.pdf''"
  let ?z = "S ''/srv/job/PDFs/old/zero.pdf''"
  let ?files = "list_files_with_extension (S ''./PDFs'') (S ''.pdf'') example_world_3"
  have v: "validate_files example_env ?files example_world_3 = (None, example_world_4)"
    by (simp only: example_list_files example_validate)
  then have w4: "example_world_4 = snd (validate_files example_env ?files example_world_3)"
    by simp
  note t = validation_keeps_valid_pdfs [OF example_wf refl w4, where f = ?a]
  have valid: "fst (is_valid_pdf example_env ?a example_world_3)"
    "\<not> fst (is_valid_pdf example_env ?b example_world_3)"
    "\<not> fst (is_valid_pdf example_env ?z example_world_3)"
    by (simp_all add: is_valid_pdf_def fitz_open_path_def lookup_def
        example_abspath_abs[simplified] example_env_def example_fitz_def startswith_def
        example_world_3_def example_world_1_def example_world_def)
  from t have "list_all (\<lambda>p. if fst (is_valid_pdf example_env p example_world_3)
                        then lookup example_world_4 p = lookup example_world_3 p
                        else lookup example_world_4 p = None
                             \<and> Warning_Removing p \<in> set (out example_world_4))
                 [?a, ?b, ?z]"
    unfolding example_list_files by blast
  with valid have 1: "lookup example_world_4 ?a = lookup example_world_3 ?a"
    "lookup example_world_4 ?b = None" "lookup example_world_4 ?z = None"
    by simp_all
  have l4: "list_files_with_extension (S ''./PDFs'') (S ''.pdf'') example_world_4 = [?a]"
    by (simp add: list_files_with_extension_def isdir_def lookup_def example_abspath[simplified]
        example_world_4_def example_world_1_def example_world_def is_under_def endswith_def
        startswith_def basename_def rfind_def)
  from t have "list_all (\<lambda>p. opens_with_pages example_env p example_world_4)
                 (list_files_with_extension (S ''./PDFs'') (S ''.pdf'') example_world_4)"
    by blast
  then have 2: "opens_with_pages example_env ?a example_world_4" unfolding l4 by simp
  from example_wf v 1 l4 2 show ?thesis by blast
qed

text \<open>
  C7 as the specification words it fails: the empty file \<open>Bad.pdf\<close> is removed as invalid
  and the NOTICE about its name is printed all the same.
\<close>

theorem notice_only_for_kept_files_counterexample:
  "path_exists example_world_3 (S ''/srv/job/PDFs/Bad.pdf'')
   \<and> Warning_Removing (S ''/srv/job/PDFs/Bad.pdf'')
       \<in> set (out (snd (validate_files example_env
             (list_files_with_extension (S ''./PDFs'') (S ''.pdf'') example_world_3)
             example_world_3)))
   \<and> \<not> path_exists
         (snd (validate_files example_env
            (list_files_with_extension (S ''./PDFs'') (S ''.pdf'') example_world_3)
            example_world_3))
         (S ''/srv/job/PDFs/Bad.pdf'')
   \<and> Notice_Uppercase (S ''/srv/job/PDFs/Bad.pdf'')
       \<in> set (out (snd (validate_files example_env
             (list_files_with_extension (S ''./PDFs'') (S ''.pdf'') example_world_3)
             example_world_3)))"
  unfolding example_list_files example_validate snd_conv
  by (simp add: path_exists_def lookup_def example_abspath_abs[simplified] example_world_4_def
      example_world_3_def example_world_1_def example_world_def)

theorem uppercase_notice_for_every_listed_file_witness:
  "fst (validate_files example_env
          [S ''/srv/job/PDFs/a.pdf'', S ''/srv/job/PDFs/Bad.pdf'',
           S ''/srv/job/PDFs/old/zero.pdf''] example_world_3) = None
   \<and> filter is_notice (out example_world_4) = [Notice_Uppercase (S ''/srv/job/PDFs/Bad.pdf'')]
   \<and> same_but_out example_world_4
        (snd (remove_invalid_files example_env
                [S ''/srv/job/PDFs/a.pdf'', S ''/srv/job/PDFs/Bad.pdf'',
                 S ''/srv/job/PDFs/old/zero.pdf''] example_world_3))"
proof -
  let ?files = "[S ''/srv/job/PDFs/a.pdf'', S ''/srv/job/PDFs/Bad.pdf'',
                 S ''/srv/job/PDFs/old/zero.pdf'']"
  have h: "fst (validate_files example_env ?files example_world_3) = None"
    by (simp only: example_validate fst_conv)
  note t = uppercase_notice_for_every_listed_file [OF h]
  have up: "filter (\<lambda>p. contains_uppercase example_env (get_filename_from_path p)) ?files
              = [S ''/srv/job/PDFs/Bad.pdf'']"
    by (simp add: contains_uppercase_def isupper_def is_upper_ascii_def
        get_filename_from_path_def basename_def rfind_def example_env_def)
  have o3: "out example_world_3 = []"
    by (simp add: example_world_3_def example_world_1_def example_world_def)
  from t have "filter is_notice (out (snd (validate_files example_env ?files example_world_3)))
           = filter is_notice (out example_world_3)
             @ map Notice_Uppercase
                 (filter (\<lambda>p. contains_uppercase example_env (get_filename_from_path p)) ?files)"
    by blast
  then have 1: "filter is_notice (out example_world_4)
                  = [Notice_Uppercase (S ''/srv/job/PDFs/Bad.pdf'')]"
    unfolding up o3 example_validate snd_conv by simp
  from t have 2: "same_but_out (snd (validate_files example_env ?files example_world_3))
                    (snd (remove_invalid_files example_env ?files example_world_3))"
    by blast
  from h 1 2[unfolded example_validate snd_conv] show ?thesis by blast
qed


end
